theory Spec2Isabelle
  imports Main
begin

section \<open>Values, promises and the job queue of the host\<close>

text \<open>
  The three classes verified here (\<open>TaskQueue\<close>, \<open>RedrawController\<close>,
  \<open>RendererController\<close>) are written against JavaScript promises. The model keeps a
  store of promises, each either pending with its registered reactions or settled, and
  the queue of promise jobs (microtasks) of the host. Every callback the source passes to
  \<open>then\<close>, and every continuation of an \<open>await\<close>, is one constructor of
  \<open>handler\<close>; running a job interprets it.
\<close>

type_synonym pid = nat
type_synonym token = nat

datatype error = QueueDisposed | TypeError | Failure nat

datatype val = Undefined | Value nat

datatype outcome = Fulfilled val | Rejected error

text \<open>What a call returns: a plain value or a promise-like (\<open>isPromiseLike\<close>).\<close>

datatype jsval = Plain val | Promise pid

datatype 'a completion = Returned 'a | Threw error

text \<open>A \<open>VideoFrame\<close>: one handed in from outside, or the k-th clone made by the program.\<close>

datatype frame = Frame nat | Clone frame nat

text \<open>
  What an externally supplied function does when it is called: it returns a value, throws,
  or returns a promise that its owner settles later.
\<close>

datatype behaviour = Returns val | Throws error | ReturnsPromise pid

text \<open>
  The tasks handed to \<open>TaskQueue.enqueue\<close>: an external task (numbered, with its
  behaviour), and the two async arrow functions of \<open>RedrawController\<close>.
\<close>

datatype task = Task nat behaviour | DrawTask frame | RedrawTask token

datatype handler =
    ReadyFirst bool
  | Suppress
  | RunTask task
  | ReadyNext bool
  | Adopt
  | DrawCont frame
  | AwaitReturn

datatype job = ReactionJob handler pid outcome | ResolveThenable pid pid

datatype origin = ByDraw | ByRedraw token

datatype obs = Invoked task | DrawCallback origin frame | Closed frame

record promise =
  pstate :: "outcome option"
  reactions :: "(handler \<times> pid) list"

record state =
  store :: "promise list"
  microtasks :: "job list"
  trace :: "obs list"
  ready :: "pid option"
  disposed :: bool
  draw_callback :: "frame \<Rightarrow> behaviour"
  pendingRedraw :: "token option"
  lastFrame :: "frame option"
  abort_controllers :: "bool list"
  clones :: nat

definition emit :: "obs \<Rightarrow> state \<Rightarrow> state" where
  "emit ob s = s\<lparr>trace := trace s @ [ob]\<rparr>"

text \<open>\<open>new Promise\<close>, pending or already settled (\<open>Promise.reject(e)\<close>).\<close>

definition new_promise :: "outcome option \<Rightarrow> state \<Rightarrow> pid \<times> state" where
  "new_promise st s =
     (length (store s), s\<lparr>store := store s @ [\<lparr>pstate = st, reactions = []\<rparr>]\<rparr>)"

text \<open>
  Settling a pending promise queues one job per registered reaction, in registration
  order; settling a settled promise does nothing (the resolving functions are one-shot).
\<close>

definition settle :: "pid \<Rightarrow> outcome \<Rightarrow> state \<Rightarrow> state" where
  "settle p out s =
     (if p < length (store s) \<and> pstate (store s ! p) = None then
        s\<lparr>store := (store s)[p := \<lparr>pstate = Some out, reactions = []\<rparr>],
          microtasks := microtasks s @
            map (\<lambda>(h, d). ReactionJob h d out) (reactions (store s ! p))\<rparr>
      else s)"

text \<open>
  \<open>PerformPromiseThen\<close>: the reaction \<open>h\<close> with derived promise \<open>d\<close> is stored on a
  pending promise, and queued at once as a job on a settled one.
\<close>

definition perform_then :: "pid \<Rightarrow> handler \<Rightarrow> pid \<Rightarrow> state \<Rightarrow> state" where
  "perform_then p h d s =
     (if p < length (store s) then
        (case pstate (store s ! p) of
           None \<Rightarrow>
             s\<lparr>store := (store s)[p := (store s ! p)\<lparr>reactions := reactions (store s ! p) @ [(h, d)]\<rparr>]\<rparr>
         | Some out \<Rightarrow> s\<lparr>microtasks := microtasks s @ [ReactionJob h d out]\<rparr>)
      else s)"

text \<open>\<open>p.then(...)\<close>: allocates the derived promise and registers the reaction.\<close>

definition then_promise :: "pid \<Rightarrow> handler \<Rightarrow> state \<Rightarrow> pid \<times> state" where
  "then_promise p h s =
     (case new_promise None s of (d, s1) \<Rightarrow> (d, perform_then p h d s1))"

text \<open>
  Resolving a promise with what a handler returned: a plain value fulfils it, a
  promise-like is adopted through a \<open>NewPromiseResolveThenableJob\<close>.
\<close>

definition resolve :: "pid \<Rightarrow> jsval \<Rightarrow> state \<Rightarrow> state" where
  "resolve d v s =
     (case v of
        Plain x \<Rightarrow> settle d (Fulfilled x) s
      | Promise q \<Rightarrow> s\<lparr>microtasks := microtasks s @ [ResolveThenable d q]\<rparr>)"

definition call :: "behaviour \<Rightarrow> jsval completion" where
  "call b = (case b of
      Returns v \<Rightarrow> Returned (Plain v)
    | Throws e \<Rightarrow> Threw e
    | ReturnsPromise q \<Rightarrow> Returned (Promise q))"

section \<open>The async arrow functions of RedrawController\<close>

definition close_frame :: "frame \<Rightarrow> state \<Rightarrow> state" where
  "close_frame f s = emit (Closed f) s"

definition aborted :: "token \<Rightarrow> state \<Rightarrow> bool" where
  "aborted t s = (t < length (abort_controllers s) \<and> abort_controllers s ! t)"

definition abort :: "token \<Rightarrow> state \<Rightarrow> state" where
  "abort t s = s\<lparr>abort_controllers := (abort_controllers s)[t := True]\<rparr>"

text \<open>
  \<open>try { await this.#draw(frame); } finally { frame.close(); }\<close> inside an async
  function whose promise is \<open>P\<close>. The callback is called at once. If it throws,
  \<open>finally\<close> closes the frame and \<open>P\<close> rejects. Otherwise the function suspends at
  the \<open>await\<close>; the continuation \<open>DrawCont frame\<close> closes the frame and settles \<open>P\<close>.
\<close>

definition draw_body :: "origin \<Rightarrow> frame \<Rightarrow> pid \<Rightarrow> state \<Rightarrow> state" where
  "draw_body who f P s =
     (let s1 = emit (DrawCallback who f) s in
      case call (draw_callback s1 f) of
        Threw e \<Rightarrow> settle P (Rejected e) (close_frame f s1)
      | Returned (Plain v) \<Rightarrow>
          s1\<lparr>microtasks := microtasks s1 @ [ReactionJob (DrawCont f) P (Fulfilled v)]\<rparr>
      | Returned (Promise q) \<Rightarrow> perform_then q (DrawCont f) P s1)"

text \<open>Calling a task. An async function returns its promise in every case.\<close>

definition invoke_task :: "task \<Rightarrow> state \<Rightarrow> jsval completion \<times> state" where
  "invoke_task t s =
     (let s0 = emit (Invoked t) s in
      case t of
        Task n b \<Rightarrow> (call b, s0)
      | DrawTask f \<Rightarrow>
          (case new_promise None s0 of (P, s1) \<Rightarrow>
             (Returned (Promise P), draw_body ByDraw f P s1))
      | RedrawTask tok \<Rightarrow>
          (case new_promise None s0 of (P, s1) \<Rightarrow>
             if aborted tok s1 then (Returned (Promise P), settle P (Fulfilled Undefined) s1)
             else
               (let s2 = s1\<lparr>pendingRedraw := None\<rparr> in
                case lastFrame s2 of
                  None \<Rightarrow> (Returned (Promise P), settle P (Rejected TypeError) s2)
                | Some lf \<Rightarrow>
                    (let f = Clone lf (clones s2);
                         s3 = s2\<lparr>clones := Suc (clones s2)\<rparr>
                     in (Returned (Promise P), draw_body (ByRedraw tok) f P s3)))))"

section \<open>Promise jobs\<close>

definition run_reaction :: "handler \<Rightarrow> pid \<Rightarrow> outcome \<Rightarrow> state \<Rightarrow> state" where
  "run_reaction h d out s =
     (case h of
        ReadyFirst bail \<Rightarrow>
          (case out of
             Fulfilled v \<Rightarrow> settle d (Fulfilled Undefined) s
           | Rejected e \<Rightarrow>
               if bail then settle d (Rejected e) s else settle d (Fulfilled Undefined) s)
      | Suppress \<Rightarrow>
          (case out of
             Fulfilled v \<Rightarrow> settle d (Fulfilled v) s
           | Rejected e \<Rightarrow> settle d (Fulfilled Undefined) s)
      | RunTask t \<Rightarrow>
          (case out of
             Rejected e \<Rightarrow> settle d (Rejected e) s
           | Fulfilled v \<Rightarrow>
               if disposed s then settle d (Rejected QueueDisposed) s
               else
                 (case invoke_task t s of
                    (Returned r, s1) \<Rightarrow> resolve d r s1
                  | (Threw e, s1) \<Rightarrow> settle d (Rejected e) s1))
      | ReadyNext bail \<Rightarrow>
          (case out of
             Fulfilled v \<Rightarrow> settle d (Fulfilled Undefined) s
           | Rejected e \<Rightarrow>
               if bail \<or> disposed s then settle d (Rejected e) s
               else settle d (Fulfilled Undefined) s)
      | Adopt \<Rightarrow> settle d out s
      | DrawCont f \<Rightarrow>
          (case out of
             Fulfilled v \<Rightarrow> settle d (Fulfilled Undefined) (close_frame f s)
           | Rejected e \<Rightarrow> settle d (Rejected e) (close_frame f s))
      | AwaitReturn \<Rightarrow> settle d out s)"

definition run_job :: "job \<Rightarrow> state \<Rightarrow> state" where
  "run_job j s =
     (case j of
        ReactionJob h d out \<Rightarrow> run_reaction h d out s
      | ResolveThenable d q \<Rightarrow> perform_then q Adopt d s)"

text \<open>The weight of a reaction bounds the work its job can add to the store and queue.\<close>

fun hweight :: "handler \<Rightarrow> nat" where
  "hweight (RunTask t) = 4"
| "hweight h = 1"

fun jweight :: "job \<Rightarrow> nat" where
  "jweight (ReactionJob h d out) = hweight h"
| "jweight (ResolveThenable d q) = 2"

definition pweight :: "promise \<Rightarrow> nat" where
  "pweight p = sum_list (map (\<lambda>(h, d). hweight h) (reactions p))"

definition work :: "state \<Rightarrow> nat" where
  "work s = sum_list (map pweight (store s)) + sum_list (map jweight (microtasks s))"

text \<open>
  Draining the job queue, as the host does whenever the call stack empties: jobs run in
  order, and the jobs they queue run in the same drain. It terminates because every job
  queues less work than its own weight.
\<close>

lemma sum_list_map_update:
  "i < length xs \<Longrightarrow> sum_list (map f (xs[i := x])) + f (xs ! i) = sum_list (map f xs) + (f x :: nat)"
  by (induction xs arbitrary: i) (auto split: nat.splits)

lemma work_settle [simp]: "work (settle p out s) = work s"
proof (cases "p < length (store s) \<and> pstate (store s ! p) = None")
  case True
  have m: "sum_list (map (jweight \<circ> (\<lambda>(h, d). ReactionJob h d out)) rs) = sum_list (map (\<lambda>(h, d). hweight h) rs)" for rs
    by (induction rs) auto
  from True sum_list_map_update[of p "store s" pweight "\<lparr>pstate = Some out, reactions = []\<rparr>"]
  show ?thesis by (simp add: settle_def work_def m pweight_def)
next
  case False
  then show ?thesis by (auto simp: settle_def)
qed

lemma work_perform_then: "work (perform_then p h d s) \<le> work s + hweight h"
proof (cases "p < length (store s)")
  case True
  show ?thesis
  proof (cases "pstate (store s ! p)")
    case None
    from True sum_list_map_update[of p "store s" pweight "(store s ! p)\<lparr>reactions := reactions (store s ! p) @ [(h, d)]\<rparr>"]
    show ?thesis using None by (simp add: perform_then_def work_def pweight_def)
  next
    case (Some a)
    then show ?thesis using True by (simp add: perform_then_def work_def)
  qed
next
  case False
  then show ?thesis by (simp add: perform_then_def)
qed

lemma work_new_promise [simp]: "work (snd (new_promise st s)) = work s"
  by (simp add: new_promise_def work_def pweight_def)

lemma work_emit [simp]: "work (emit ob s) = work s"
  by (simp add: emit_def work_def)

lemma work_close_frame [simp]: "work (close_frame f s) = work s"
  by (simp add: close_frame_def)

lemma work_resolve: "work (resolve d v s) \<le> work s + 2"
  by (cases v) (simp_all add: resolve_def, simp add: work_def)

lemma work_push [simp]: "work (s\<lparr>microtasks := microtasks s @ [j]\<rparr>) = work s + jweight j"
  by (simp add: work_def)

lemma work_fields [simp]:
  "work (s\<lparr>trace := tr\<rparr>) = work s"
  "work (s\<lparr>ready := r\<rparr>) = work s"
  "work (s\<lparr>disposed := b\<rparr>) = work s"
  "work (s\<lparr>pendingRedraw := pr\<rparr>) = work s"
  "work (s\<lparr>lastFrame := lf\<rparr>) = work s"
  "work (s\<lparr>abort_controllers := ac\<rparr>) = work s"
  "work (s\<lparr>clones := c\<rparr>) = work s"
  by (simp_all add: work_def)

lemma work_draw_body: "work (draw_body who f P s) \<le> work s + 1"
proof -
  let ?s1 = "emit (DrawCallback who f) s"
  have "work (perform_then q (DrawCont f) P ?s1) \<le> work s + 1" for q
    using work_perform_then[of q "DrawCont f" P ?s1] by simp
  then show ?thesis
    by (simp add: draw_body_def Let_def split: completion.splits jsval.splits)
qed

lemma work_draw_body': "work s' = work s \<Longrightarrow> work (draw_body who f P s') \<le> Suc (work s)"
  using work_draw_body[of who f P s'] by simp

lemma work_new_promise' [simp]: "new_promise st s = (P, s1) \<Longrightarrow> work s1 = work s"
  using work_new_promise[of st s] by simp

lemma work_invoke_task: "work (snd (invoke_task t s)) \<le> work s + 1"
proof (cases t)
  case (Task n b)
  then show ?thesis by (simp add: invoke_task_def Let_def)
next
  case (DrawTask f)
  show ?thesis
    by (auto simp: invoke_task_def Let_def DrawTask intro!: work_draw_body' split: prod.splits)
next
  case (RedrawTask tok)
  show ?thesis
    by (auto simp: invoke_task_def Let_def RedrawTask intro!: work_draw_body' split: prod.splits option.splits)
qed

lemma work_run_task:
  assumes "invoke_task t s = (c, s1)"
  shows "work s1 \<le> work s + 1"
  using work_invoke_task[of t s] assms by simp

lemma work_run_reaction: "work (run_reaction h d out s) < work s + hweight h"
proof (cases h)
  case (RunTask t)
  obtain c s1 where inv: "invoke_task t s = (c, s1)" by (cases "invoke_task t s")
  have a: "work s1 \<le> work s + 1" using work_run_task[OF inv] .
  have b: "work (resolve d r s1) \<le> work s + 3" for r
    using work_resolve[of d r s1] a by arith
  show ?thesis
  proof (cases out)
    case (Fulfilled v)
    show ?thesis
    proof (cases c)
      case (Returned r)
      then show ?thesis using b[of r] inv
        by (simp add: run_reaction_def RunTask Fulfilled)
    next
      case (Threw e)
      then show ?thesis using a inv
        by (simp add: run_reaction_def RunTask Fulfilled)
    qed
  next
    case (Rejected e)
    then show ?thesis by (simp add: run_reaction_def RunTask)
  qed
qed (simp_all add: run_reaction_def split: outcome.splits)

lemma work_run_job: "work (run_job j s) < work s + jweight j"
proof (cases j)
  case (ReactionJob h d out)
  then show ?thesis by (simp add: run_job_def work_run_reaction)
next
  case (ResolveThenable d q)
  then show ?thesis using work_perform_then[of q Adopt d s]
    by (simp add: run_job_def)
qed

function drain :: "state \<Rightarrow> state" where
  "drain s =
     (case microtasks s of
        [] \<Rightarrow> s
      | j # js \<Rightarrow> drain (run_job j (s\<lparr>microtasks := js\<rparr>)))"
  by pat_completeness auto
termination
proof (relation "measure work")
  fix s :: state and j js
  assume "microtasks s = j # js"
  then have "work s = work (s\<lparr>microtasks := js\<rparr>) + jweight j"
    by (simp add: work_def)
  with work_run_job[of j "s\<lparr>microtasks := js\<rparr>"]
  show "(run_job j (s\<lparr>microtasks := js\<rparr>), s) \<in> measure work" by simp
qed simp


declare drain.simps [simp del]

lemma drain_Nil: "microtasks s = [] \<Longrightarrow> drain s = s"
  by (simp add: drain.simps)

lemma drain_Cons: "microtasks s = j # js \<Longrightarrow> drain s = drain (run_job j (s\<lparr>microtasks := js\<rparr>))"
  by (simp add: drain.simps)

section \<open>TaskQueue\<close>

text \<open>
  \<open>enqueue(task, bail)\<close>. The result is what the caller gets: a thrown error, the
  task's own return value (first branch), or the promise \<open>result\<close> (second branch).
\<close>

definition enqueue :: "task \<Rightarrow> bool \<Rightarrow> state \<Rightarrow> jsval completion \<times> state" where
  "enqueue t bail s =
     (if disposed s then (Threw QueueDisposed, s)
      else
        (case ready s of
           None \<Rightarrow>
             (case invoke_task t s of
                (Returned (Promise q), s1) \<Rightarrow>
                  (case then_promise q (ReadyFirst bail) s1 of
                     (d, s2) \<Rightarrow> (Returned (Promise q), s2\<lparr>ready := Some d\<rparr>))
              | (Returned (Plain v), s1) \<Rightarrow> (Returned (Plain v), s1)
              | (Threw e, s1) \<Rightarrow>
                  if bail then
                    (case new_promise (Some (Rejected e)) s1 of
                       (p, s2) \<Rightarrow>
                         (case then_promise p Suppress s2 of
                            (c, s3) \<Rightarrow> (Threw e, s3\<lparr>ready := Some p\<rparr>)))
                  else (Threw e, s1))
         | Some p \<Rightarrow>
             (case then_promise p (RunTask t) s of
                (result, s1) \<Rightarrow>
                  (case then_promise result (ReadyNext bail) s1 of
                     (d, s2) \<Rightarrow> (Returned (Promise result), s2\<lparr>ready := Some d\<rparr>)))))"

definition dispose :: "state \<Rightarrow> state" where
  "dispose s = s\<lparr>disposed := True\<rparr>"

section \<open>RedrawController\<close>

definition draw :: "frame \<Rightarrow> state \<Rightarrow> jsval completion \<times> state" where
  "draw f s =
     (let s1 = (case pendingRedraw s of None \<Rightarrow> s | Some tok \<Rightarrow> abort tok s);
          s2 = s1\<lparr>pendingRedraw := None\<rparr>;
          s3 = (case lastFrame s2 of None \<Rightarrow> s2 | Some lf \<Rightarrow> close_frame lf s2);
          s4 = s3\<lparr>lastFrame := Some (Clone f (clones s3)), clones := Suc (clones s3)\<rparr>
      in enqueue (DrawTask f) True s4)"

text \<open>
  \<open>redraw\<close> is an async function: it returns its own promise, settled at once on the
  early return and on a throw of \<open>enqueue\<close>, and by \<open>return await\<close> otherwise.
\<close>

definition redraw :: "state \<Rightarrow> pid \<times> state" where
  "redraw s =
     (if lastFrame s = None \<or> pendingRedraw s \<noteq> None then
        new_promise (Some (Fulfilled Undefined)) s
      else
        (let tok = length (abort_controllers s);
             s1 = s\<lparr>abort_controllers := abort_controllers s @ [False],
                    pendingRedraw := Some tok\<rparr>
         in case enqueue (RedrawTask tok) True s1 of
              (Threw e, s2) \<Rightarrow> new_promise (Some (Rejected e)) s2
            | (Returned (Plain v), s2) \<Rightarrow>
                (case new_promise None s2 of
                   (P, s3) \<Rightarrow>
                     (P, s3\<lparr>microtasks := microtasks s3 @ [ReactionJob AwaitReturn P (Fulfilled v)]\<rparr>))
            | (Returned (Promise r), s2) \<Rightarrow>
                (case new_promise None s2 of
                   (P, s3) \<Rightarrow> (P, perform_then r AwaitReturn P s3))))"

definition controller_dispose :: "state \<Rightarrow> state" where
  "controller_dispose s =
     (let s1 = (case pendingRedraw s of None \<Rightarrow> s | Some tok \<Rightarrow> abort tok s);
          s2 = (case lastFrame s1 of None \<Rightarrow> s1 | Some lf \<Rightarrow> close_frame lf s1);
          s3 = s2\<lparr>lastFrame := None\<rparr>
      in dispose s3)"

section \<open>Runs\<close>

text \<open>A new controller with its queue, for a given draw callback.\<close>

definition init :: "(frame \<Rightarrow> behaviour) \<Rightarrow> state" where
  "init cb = \<lparr>store = [], microtasks = [], trace = [], ready = None, disposed = False,
     draw_callback = cb, pendingRedraw = None, lastFrame = None,
     abort_controllers = [], clones = 0\<rparr>"

text \<open>
  What the surroundings can do between two jobs of the host: call a method, create a
  promise of their own or settle one, and let the host drain its job queue.
\<close>

datatype event =
    Enqueue task bool
  | Dispose
  | Draw frame
  | Redraw
  | ControllerDispose
  | NewPromise
  | Settle pid outcome
  | Tick

fun exec :: "event \<Rightarrow> state \<Rightarrow> state" where
  "exec (Enqueue t bail) s = snd (enqueue t bail s)"
| "exec Dispose s = dispose s"
| "exec (Draw f) s = snd (draw f s)"
| "exec Redraw s = snd (redraw s)"
| "exec ControllerDispose s = controller_dispose s"
| "exec NewPromise s = snd (new_promise None s)"
| "exec (Settle p out) s = settle p out s"
| "exec Tick s = drain s"

definition run :: "event list \<Rightarrow> state \<Rightarrow> state" where
  "run evs s = foldl (\<lambda>s ev. exec ev s) s evs"

text \<open>The state of a promise, as a caller holding it observes it.\<close>

definition outcome_of :: "pid \<Rightarrow> state \<Rightarrow> outcome option" where
  "outcome_of p s = (if p < length (store s) then pstate (store s ! p) else None)"

definition reactions_of :: "pid \<Rightarrow> state \<Rightarrow> (handler \<times> pid) list" where
  "reactions_of p s = (if p < length (store s) then reactions (store s ! p) else [])"

text \<open>The number of promises allocated so far; the next promise gets this number.\<close>

definition size_of :: "state \<Rightarrow> nat" where
  "size_of s = length (store s)"

text \<open>Submitting several tasks one after the other, with no job of the host in between.\<close>

fun enqueue_all :: "(task \<times> bool) list \<Rightarrow> state \<Rightarrow> jsval completion list \<times> state" where
  "enqueue_all [] s = ([], s)"
| "enqueue_all ((t, bail) # ts) s =
     (case enqueue t bail s of
        (r, s1) \<Rightarrow> (case enqueue_all ts s1 of (rs, s2) \<Rightarrow> (r # rs, s2)))"


section \<open>RendererController\<close>

text \<open>
  The transform has one await inside the loop of \<open>#draw\<close> and one at the head of the
  \<open>close\<close> and \<open>abort\<close> handlers. A suspended \<open>#draw\<close> is the field
  \<open>awaiting\<close> (its local \<open>frame\<close>, handed to the output side and not yet
  answered); a handler suspended on \<open>await this.#drawTask\<close> is the field
  \<open>waiting\<close>. \<open>outlog\<close> records, in order, what leaves the transform.
\<close>

datatype out_event =
    Enqueued frame
  | FrameClosed frame
  | ReadableClosed
  | ReadableErrored
  | WritableErrored
  | CounterDisposed

datatype sink_wait = WaitClose | WaitAbort

text \<open>
  Modelled from the spec: \<open>PerformanceCounter\<close> and \<open>PushReadableStream\<close> are
  imported and not part of the sources. The counter is the two counts the transform
  increases and a \<open>dispose\<close>; the output side takes a frame (\<open>Enqueued\<close>) and
  answers later whether it accepted it.
\<close>

record renderer =
  captureFrame :: "frame option"
  nextFrame :: "frame option"
  drawTask :: bool
  awaiting :: "frame option"
  waiting :: "sink_wait option"
  framesRendered :: nat
  framesSkippedRendering :: nat
  cloned :: nat
  outlog :: "out_event list"

definition put :: "out_event \<Rightarrow> renderer \<Rightarrow> renderer" where
  "put e r = r\<lparr>outlog := outlog r @ [e]\<rparr>"

definition finish_sink :: "sink_wait \<Rightarrow> renderer \<Rightarrow> renderer" where
  "finish_sink w r =
     (case w of
        WaitClose \<Rightarrow> put CounterDisposed (put ReadableClosed r)
      | WaitAbort \<Rightarrow> put CounterDisposed (put ReadableErrored r))"

text \<open>
  \<open>#draw\<close> from the head of its loop up to the next await, or to its end. At the end
  \<open>#drawTask\<close> is cleared, the promise of \<open>#draw\<close> resolves, and a handler
  awaiting it goes on.
\<close>

definition draw_loop :: "renderer \<Rightarrow> renderer" where
  "draw_loop r =
     (case nextFrame r of
        Some f \<Rightarrow> put (Enqueued f) (r\<lparr>nextFrame := None, awaiting := Some f\<rparr>)
      | None \<Rightarrow>
          (let r1 = r\<lparr>drawTask := False\<rparr> in
           case waiting r1 of
             None \<Rightarrow> r1
           | Some w \<Rightarrow> finish_sink w (r1\<lparr>waiting := None\<rparr>)))"

definition tryStartDrawing :: "renderer \<Rightarrow> renderer" where
  "tryStartDrawing r = (if drawTask r then r else (draw_loop r)\<lparr>drawTask := True\<rparr>)"

text \<open>The output side answers the pending \<open>enqueue\<close>: the loop body goes on after the await.\<close>

definition enqueue_settled :: "bool \<Rightarrow> renderer \<Rightarrow> renderer" where
  "enqueue_settled accepted r =
     (case awaiting r of
        None \<Rightarrow> r
      | Some f \<Rightarrow>
          (let r1 = r\<lparr>awaiting := None\<rparr>;
               r2 = (if accepted then r1\<lparr>framesRendered := Suc (framesRendered r1)\<rparr>
                     else put (FrameClosed f) r1)
           in draw_loop r2))"

definition sink_write :: "frame \<Rightarrow> renderer \<Rightarrow> renderer" where
  "sink_write f r =
     (let r1 = (case captureFrame r of None \<Rightarrow> r | Some c \<Rightarrow> put (FrameClosed c) r);
          r2 = r1\<lparr>captureFrame := Some (Clone f (cloned r1)), cloned := Suc (cloned r1)\<rparr>;
          r3 = (case nextFrame r2 of
                  None \<Rightarrow> r2
                | Some n \<Rightarrow>
                    (put (FrameClosed n) r2)
                      \<lparr>framesSkippedRendering := Suc (framesSkippedRendering r2)\<rparr>);
          r4 = r3\<lparr>nextFrame := Some f\<rparr>
      in tryStartDrawing r4)"

definition sink_wait_drawTask :: "sink_wait \<Rightarrow> renderer \<Rightarrow> renderer" where
  "sink_wait_drawTask w r =
     (if drawTask r \<and> awaiting r \<noteq> None then r\<lparr>waiting := Some w\<rparr>
      else finish_sink w r)"

definition sink_close :: "renderer \<Rightarrow> renderer" where
  "sink_close r = sink_wait_drawTask WaitClose r"

definition sink_abort :: "renderer \<Rightarrow> renderer" where
  "sink_abort r = sink_wait_drawTask WaitAbort r"

definition renderer_dispose :: "renderer \<Rightarrow> renderer" where
  "renderer_dispose r =
     (let r1 = (case captureFrame r of None \<Rightarrow> r | Some c \<Rightarrow> put (FrameClosed c) r);
          r2 = r1\<lparr>captureFrame := None\<rparr>;
          r3 = (case nextFrame r2 of None \<Rightarrow> r2 | Some n \<Rightarrow> put (FrameClosed n) r2);
          r4 = r3\<lparr>nextFrame := None\<rparr>
      in put WritableErrored (put ReadableClosed (put CounterDisposed r4)))"

definition renderer_init :: renderer where
  "renderer_init = \<lparr>captureFrame = None, nextFrame = None, drawTask = False,
     awaiting = None, waiting = None, framesRendered = 0, framesSkippedRendering = 0,
     cloned = 0, outlog = []\<rparr>"

datatype renderer_event =
    Write frame
  | EnqueueSettled bool
  | SinkClose
  | SinkAbort
  | RendererDispose

fun renderer_exec :: "renderer_event \<Rightarrow> renderer \<Rightarrow> renderer" where
  "renderer_exec (Write f) r = sink_write f r"
| "renderer_exec (EnqueueSettled b) r = enqueue_settled b r"
| "renderer_exec SinkClose r = sink_close r"
| "renderer_exec SinkAbort r = sink_abort r"
| "renderer_exec RendererDispose r = renderer_dispose r"

definition renderer_run :: "renderer_event list \<Rightarrow> renderer \<Rightarrow> renderer" where
  "renderer_run evs r = foldl (\<lambda>r ev. renderer_exec ev r) r evs"

section \<open>Vocabulary of the claims\<close>

text \<open>A draw callback that returns at once, for the concrete runs below.\<close>

definition returns_at_once :: "frame \<Rightarrow> behaviour" where
  "returns_at_once f = Returns Undefined"

text \<open>
  The chain state of a queue, read off \<open>#ready\<close>: no chain, a chain that settled
  well, or a chain that settled with a failure.
\<close>

definition poisoned :: "error \<Rightarrow> state \<Rightarrow> bool" where
  "poisoned e s =
     (case ready s of None \<Rightarrow> False | Some p \<Rightarrow> outcome_of p s = Some (Rejected e))"

definition settled_well :: "state \<Rightarrow> bool" where
  "settled_well s =
     (case ready s of
        None \<Rightarrow> False
      | Some p \<Rightarrow> (case outcome_of p s of Some (Fulfilled v) \<Rightarrow> True | _ \<Rightarrow> False))"

text \<open>
  A queue a task can be submitted to with nothing else going on: not disposed, no job
  waiting in the host, and no chain or a chain that settled well.
\<close>

definition healthy :: "state \<Rightarrow> bool" where
  "healthy s = (\<not> disposed s \<and> microtasks s = [] \<and> (ready s = None \<or> settled_well s))"

text \<open>A task is synchronous when it returns a plain value or throws.\<close>

definition synchronous :: "behaviour \<Rightarrow> bool" where
  "synchronous b = (case b of ReturnsPromise q \<Rightarrow> False | _ \<Rightarrow> True)"

text \<open>A task that throws, submitted with \<open>bail = true\<close>.\<close>

definition bails :: "behaviour \<Rightarrow> bool \<Rightarrow> bool" where
  "bails b bail = (case b of Throws e \<Rightarrow> bail | _ \<Rightarrow> False)"

text \<open>What the caller of \<open>enqueue\<close> sees of its result in a state.\<close>

definition delivered :: "jsval completion \<Rightarrow> state \<Rightarrow> outcome option" where
  "delivered r s =
     (case r of
        Threw e \<Rightarrow> Some (Rejected e)
      | Returned (Plain v) \<Rightarrow> Some (Fulfilled v)
      | Returned (Promise p) \<Rightarrow> outcome_of p s)"




text \<open>Submitting a task and letting the host drain its job queue.\<close>

definition submit :: "task \<Rightarrow> bool \<Rightarrow> state \<Rightarrow> state" where
  "submit t bail s = drain (snd (enqueue t bail s))"

text \<open>
  A reaction that calls nothing settles its derived promise with a value that depends
  only on what it receives and on whether the queue is disposed: \<open>relay\<close> gives that
  value, and \<open>None\<close> for a reaction that calls a task or closes a frame. \<open>relays\<close>
  follows a list of such reactions, each fed by the one before.
\<close>

fun relay :: "bool \<Rightarrow> handler \<Rightarrow> outcome \<Rightarrow> outcome option" where
  "relay dis (ReadyFirst bail) (Fulfilled v) = Some (Fulfilled Undefined)"
| "relay dis (ReadyFirst bail) (Rejected e) = Some (if bail then Rejected e else Fulfilled Undefined)"
| "relay dis Suppress (Fulfilled v) = Some (Fulfilled v)"
| "relay dis Suppress (Rejected e) = Some (Fulfilled Undefined)"
| "relay dis (RunTask t) (Fulfilled v) = (if dis then Some (Rejected QueueDisposed) else None)"
| "relay dis (RunTask t) (Rejected e) = Some (Rejected e)"
| "relay dis (ReadyNext bail) (Fulfilled v) = Some (Fulfilled Undefined)"
| "relay dis (ReadyNext bail) (Rejected e) =
     Some (if bail \<or> dis then Rejected e else Fulfilled Undefined)"
| "relay dis Adopt out = Some out"
| "relay dis (DrawCont f) out = None"
| "relay dis AwaitReturn out = Some out"

fun relays :: "bool \<Rightarrow> (handler \<times> pid) list \<Rightarrow> outcome \<Rightarrow> (pid \<times> outcome) list option" where
  "relays dis [] out = Some []"
| "relays dis ((h, x) # xs) out =
     (case relay dis h out of
        None \<Rightarrow> None
      | Some out' \<Rightarrow>
          (case relays dis xs out' of
             None \<Rightarrow> None
           | Some rest \<Rightarrow> Some ((x, out') # rest)))"

text \<open>
  A chain: pending promises, numbered upwards, each with the next one's reaction as its
  only reaction, the last with none.
\<close>

fun chain :: "(handler \<times> pid) list \<Rightarrow> state \<Rightarrow> bool" where
  "chain [] s = True"
| "chain [(h, x)] s = (x < size_of s \<and> outcome_of x s = None \<and> reactions_of x s = [])"
| "chain ((h, x) # (h', x') # xs) s =
     (x < size_of s \<and> outcome_of x s = None \<and> x < x' \<and> reactions_of x s = [(h', x')]
      \<and> chain ((h', x') # xs) s)"

text \<open>
  The reactions \<open>enqueue\<close> registers for tasks submitted one after the other, when the
  first result promise gets the number \<open>n\<close>.
\<close>

fun links :: "nat \<Rightarrow> (task \<times> bool) list \<Rightarrow> (handler \<times> pid) list" where
  "links n [] = []"
| "links n ((t, bail) # ts) = (RunTask t, n) # (ReadyNext bail, Suc n) # links (Suc (Suc n)) ts"


text \<open>The failure a chain hands to a task scheduled behind it, once the queue is disposed.\<close>

definition failure_of :: "outcome \<Rightarrow> error" where
  "failure_of out = (case out of Fulfilled v \<Rightarrow> QueueDisposed | Rejected e \<Rightarrow> e)"


text \<open>
  The failure that \<open>#ready\<close> (as it was in an earlier state) has come to in state
  \<open>s\<close>; the disposed-queue error if it fulfilled.
\<close>

definition chain_failure :: "pid option \<Rightarrow> state \<Rightarrow> error" where
  "chain_failure r s =
     (case r of
        None \<Rightarrow> QueueDisposed
      | Some p \<Rightarrow> (case outcome_of p s of Some (Rejected e) \<Rightarrow> e | _ \<Rightarrow> QueueDisposed))"


text \<open>The tasks that were called, in the order of the calls.\<close>

definition invocations :: "state \<Rightarrow> task list" where
  "invocations s = concat (map (\<lambda>ob. case ob of Invoked t \<Rightarrow> [t] | _ \<Rightarrow> []) (trace s))"


text \<open>A draw callback that throws on the frame numbered 1 and returns at once otherwise.\<close>

definition throws_on_first :: "frame \<Rightarrow> behaviour" where
  "throws_on_first f = (if f = Frame 1 then Throws (Failure 7) else Returns Undefined)"

text \<open>The close of the previous \<open>lastFrame\<close>, if there is one.\<close>

definition closing :: "frame option \<Rightarrow> obs list" where
  "closing lf = (case lf of None \<Rightarrow> [] | Some x \<Rightarrow> [Closed x])"

text \<open>The calls of the draw callback made by the redraw task of a token.\<close>

fun is_redraw_call :: "token \<Rightarrow> obs \<Rightarrow> bool" where
  "is_redraw_call tok (DrawCallback (ByRedraw t) f) = (t = tok)"
| "is_redraw_call tok ob = False"

definition redraw_calls :: "token \<Rightarrow> state \<Rightarrow> obs list" where
  "redraw_calls tok s = filter (is_redraw_call tok) (trace s)"

text \<open>
  The queue of a controller is private: its users call \<open>draw\<close>, \<open>redraw\<close> and
  \<open>dispose\<close>, never \<open>enqueue\<close>.
\<close>

fun controller_event :: "event \<Rightarrow> bool" where
  "controller_event (Enqueue t bail) = False"
| "controller_event ev = True"

text \<open>The tasks scheduled and not yet called: in a reaction of the store or in a job.\<close>

definition scheduled :: "state \<Rightarrow> task set" where
  "scheduled s =
     {t. \<exists>p d. (RunTask t, d) \<in> set (reactions_of p s)}
     \<union> {t. \<exists>d out. ReactionJob (RunTask t) d out \<in> set (microtasks s)}"


text \<open>The state in which \<open>draw\<close> calls \<open>enqueue\<close>.\<close>

definition before_enqueue :: "frame \<Rightarrow> state \<Rightarrow> state" where
  "before_enqueue f s =
     s\<lparr>abort_controllers :=
          (case pendingRedraw s of None \<Rightarrow> abort_controllers s
           | Some tok \<Rightarrow> (abort_controllers s)[tok := True]),
       pendingRedraw := None,
       trace := trace s @ closing (lastFrame s),
       lastFrame := Some (Clone f (clones s)),
       clones := Suc (clones s)\<rparr>"


text \<open>
  Tokens are numbered in the order \<open>redraw\<close> creates them. In every state a
  controller reaches, the pending token and the tokens of scheduled redraw tasks have been
  created, and the callback has not been called for the pending token or for a token not
  yet created.
\<close>

definition token_inv :: "state \<Rightarrow> bool" where
  "token_inv s =
     ((\<forall>tok. pendingRedraw s = Some tok \<longrightarrow> tok < length (abort_controllers s))
    \<and> (\<forall>tok. RedrawTask tok \<in> scheduled s \<longrightarrow> tok < length (abort_controllers s))
    \<and> (\<forall>tok. pendingRedraw s = Some tok \<or> length (abort_controllers s) \<le> tok
          \<longrightarrow> redraw_calls tok s = []))"


text \<open>A task or reaction that refers only to tokens already created.\<close>

definition valid_task :: "task \<Rightarrow> state \<Rightarrow> bool" where
  "valid_task t s = (case t of RedrawTask tok \<Rightarrow> tok < length (abort_controllers s) | _ \<Rightarrow> True)"

definition valid_handler :: "handler \<Rightarrow> state \<Rightarrow> bool" where
  "valid_handler h s = (case h of RunTask t \<Rightarrow> valid_task t s | _ \<Rightarrow> True)"


text \<open>A token that is aborted, with the calls of the callback made for it so far.\<close>

definition cancelled :: "token \<Rightarrow> obs list \<Rightarrow> state \<Rightarrow> bool" where
  "cancelled tok calls s = (aborted tok s \<and> redraw_calls tok s = calls)"


text \<open>What happens to a transform before its input side is closed, aborted or disposed.\<close>

fun open_event :: "renderer_event \<Rightarrow> bool" where
  "open_event (Write f) = True"
| "open_event (EnqueueSettled b) = True"
| "open_event ev = False"

text \<open>
  What holds of a transform in every state it reaches that way: a frame in the slot means
  a draw loop is running, the loop is running exactly while it waits for the output side,
  no handler waits for the loop, and the output side is not closed.
\<close>

definition open_inv :: "renderer \<Rightarrow> bool" where
  "open_inv r =
     ((nextFrame r \<noteq> None \<longrightarrow> drawTask r) \<and> (drawTask r \<longleftrightarrow> awaiting r \<noteq> None)
      \<and> waiting r = None \<and> ReadableClosed \<notin> set (outlog r))"

text \<open>The frames handed to the output side after a state, up to a later state.\<close>

definition forwarded_since :: "renderer \<Rightarrow> renderer \<Rightarrow> frame list" where
  "forwarded_since r r' =
     concat (map (\<lambda>ev. case ev of Enqueued f \<Rightarrow> [f] | _ \<Rightarrow> [])
       (drop (length (outlog r)) (outlog r')))"

text \<open>The output side answers one pending \<open>enqueue\<close> after the other.\<close>

definition settle_all :: "bool list \<Rightarrow> renderer \<Rightarrow> renderer" where
  "settle_all bs r = foldl (\<lambda>r b. enqueue_settled b r) r bs"


section \<open>What each store operation changes\<close>

lemma emit_obs [simp]:
  "size_of (emit ob s) = size_of s"
  "outcome_of p (emit ob s) = outcome_of p s"
  "reactions_of p (emit ob s) = reactions_of p s"
  "microtasks (emit ob s) = microtasks s"
  "trace (emit ob s) = trace s @ [ob]"
  "ready (emit ob s) = ready s"
  "disposed (emit ob s) = disposed s"
  "draw_callback (emit ob s) = draw_callback s"
  "pendingRedraw (emit ob s) = pendingRedraw s"
  "lastFrame (emit ob s) = lastFrame s"
  "abort_controllers (emit ob s) = abort_controllers s"
  "clones (emit ob s) = clones s"
  by (simp_all add: emit_def outcome_of_def reactions_of_def size_of_def)

lemma new_promise_obs [simp]:
  "fst (new_promise st s) = size_of s"
  "size_of (snd (new_promise st s)) = Suc (size_of s)"
  "outcome_of p (snd (new_promise st s)) = (if p = size_of s then st else outcome_of p s)"
  "reactions_of p (snd (new_promise st s)) = reactions_of p s"
  "microtasks (snd (new_promise st s)) = microtasks s"
  "trace (snd (new_promise st s)) = trace s"
  "ready (snd (new_promise st s)) = ready s"
  "disposed (snd (new_promise st s)) = disposed s"
  "draw_callback (snd (new_promise st s)) = draw_callback s"
  "pendingRedraw (snd (new_promise st s)) = pendingRedraw s"
  "lastFrame (snd (new_promise st s)) = lastFrame s"
  "abort_controllers (snd (new_promise st s)) = abort_controllers s"
  "clones (snd (new_promise st s)) = clones s"
  by (auto simp: new_promise_def outcome_of_def reactions_of_def size_of_def nth_append)

lemma settle_obs [simp]:
  "size_of (settle q out s) = size_of s"
  "outcome_of p (settle q out s) =
     (if p = q \<and> q < size_of s \<and> outcome_of q s = None then Some out else outcome_of p s)"
  "reactions_of p (settle q out s) =
     (if p = q \<and> outcome_of q s = None then [] else reactions_of p s)"
  "microtasks (settle q out s) =
     (if q < size_of s \<and> outcome_of q s = None
      then microtasks s @ map (\<lambda>(h, d). ReactionJob h d out) (reactions_of q s)
      else microtasks s)"
  "trace (settle q out s) = trace s"
  "ready (settle q out s) = ready s"
  "disposed (settle q out s) = disposed s"
  "draw_callback (settle q out s) = draw_callback s"
  "pendingRedraw (settle q out s) = pendingRedraw s"
  "lastFrame (settle q out s) = lastFrame s"
  "abort_controllers (settle q out s) = abort_controllers s"
  "clones (settle q out s) = clones s"
  by (auto simp: settle_def outcome_of_def reactions_of_def size_of_def nth_list_update)

lemma perform_then_obs [simp]:
  "size_of (perform_then q h d s) = size_of s"
  "outcome_of p (perform_then q h d s) = outcome_of p s"
  "reactions_of p (perform_then q h d s) =
     (if p = q \<and> q < size_of s \<and> outcome_of q s = None then reactions_of p s @ [(h, d)]
      else reactions_of p s)"
  "microtasks (perform_then q h d s) =
     (case outcome_of q s of None \<Rightarrow> microtasks s
      | Some out \<Rightarrow> microtasks s @ [ReactionJob h d out])"
  "trace (perform_then q h d s) = trace s"
  "ready (perform_then q h d s) = ready s"
  "disposed (perform_then q h d s) = disposed s"
  "draw_callback (perform_then q h d s) = draw_callback s"
  "pendingRedraw (perform_then q h d s) = pendingRedraw s"
  "lastFrame (perform_then q h d s) = lastFrame s"
  "abort_controllers (perform_then q h d s) = abort_controllers s"
  "clones (perform_then q h d s) = clones s"
  by (auto simp: perform_then_def outcome_of_def reactions_of_def size_of_def nth_list_update split: option.splits)

lemma upd_obs [simp]:
  "size_of (s\<lparr>microtasks := m\<rparr>) = size_of s"
  "outcome_of p (s\<lparr>microtasks := m\<rparr>) = outcome_of p s"
  "reactions_of p (s\<lparr>microtasks := m\<rparr>) = reactions_of p s"
  "size_of (s\<lparr>ready := r\<rparr>) = size_of s"
  "outcome_of p (s\<lparr>ready := r\<rparr>) = outcome_of p s"
  "reactions_of p (s\<lparr>ready := r\<rparr>) = reactions_of p s"
  "size_of (s\<lparr>disposed := b\<rparr>) = size_of s"
  "outcome_of p (s\<lparr>disposed := b\<rparr>) = outcome_of p s"
  "reactions_of p (s\<lparr>disposed := b\<rparr>) = reactions_of p s"
  "size_of (s\<lparr>pendingRedraw := pr\<rparr>) = size_of s"
  "outcome_of p (s\<lparr>pendingRedraw := pr\<rparr>) = outcome_of p s"
  "reactions_of p (s\<lparr>pendingRedraw := pr\<rparr>) = reactions_of p s"
  "size_of (s\<lparr>lastFrame := lf\<rparr>) = size_of s"
  "outcome_of p (s\<lparr>lastFrame := lf\<rparr>) = outcome_of p s"
  "reactions_of p (s\<lparr>lastFrame := lf\<rparr>) = reactions_of p s"
  "size_of (s\<lparr>abort_controllers := ac\<rparr>) = size_of s"
  "outcome_of p (s\<lparr>abort_controllers := ac\<rparr>) = outcome_of p s"
  "reactions_of p (s\<lparr>abort_controllers := ac\<rparr>) = reactions_of p s"
  "size_of (s\<lparr>clones := c\<rparr>) = size_of s"
  "outcome_of p (s\<lparr>clones := c\<rparr>) = outcome_of p s"
  "reactions_of p (s\<lparr>clones := c\<rparr>) = reactions_of p s"
  by (simp_all add: outcome_of_def reactions_of_def size_of_def)

lemma upd_trace_obs [simp]:
  "size_of (s\<lparr>trace := tr\<rparr>) = size_of s"
  "outcome_of p (s\<lparr>trace := tr\<rparr>) = outcome_of p s"
  "reactions_of p (s\<lparr>trace := tr\<rparr>) = reactions_of p s"
  by (simp_all add: outcome_of_def reactions_of_def size_of_def)


lemma close_frame_obs [simp]:
  "size_of (close_frame f s) = size_of s"
  "outcome_of p (close_frame f s) = outcome_of p s"
  "reactions_of p (close_frame f s) = reactions_of p s"
  "microtasks (close_frame f s) = microtasks s"
  "trace (close_frame f s) = trace s @ [Closed f]"
  "ready (close_frame f s) = ready s"
  "disposed (close_frame f s) = disposed s"
  "draw_callback (close_frame f s) = draw_callback s"
  "pendingRedraw (close_frame f s) = pendingRedraw s"
  "lastFrame (close_frame f s) = lastFrame s"
  "abort_controllers (close_frame f s) = abort_controllers s"
  "clones (close_frame f s) = clones s"
  by (simp_all add: close_frame_def)


lemma then_promise_eq: "then_promise p h s = (size_of s, perform_then p h (size_of s) (snd (new_promise None s)))"
  by (simp add: then_promise_def new_promise_def size_of_def)

lemma outcome_of_range: "outcome_of p s = Some out \<Longrightarrow> p < size_of s"
  by (simp add: outcome_of_def size_of_def split: if_splits)

lemma fresh_obs [simp]:
  "outcome_of (size_of s) s = None" "outcome_of (Suc (size_of s)) s = None"
  "reactions_of (size_of s) s = []" "reactions_of (Suc (size_of s)) s = []"
  by (simp_all add: outcome_of_def reactions_of_def size_of_def)

lemma invoke_Task [simp]: "invoke_task (Task n b) s = (call b, emit (Invoked (Task n b)) s)"
  by (simp add: invoke_task_def)

lemmas exec_simps = enqueue_def then_promise_eq drain_Cons drain_Nil run_job_def run_reaction_def
  resolve_def call_def split_beta

section \<open>Chains of reactions\<close>

lemma run_reaction_relay:
  "relay (disposed s) h out = Some out' \<Longrightarrow> run_reaction h d out s = settle d out' s"
  by (cases h; cases out; auto simp add: run_reaction_def split: if_splits)

lemma chain_lower: "chain ((h, x) # xs) s \<Longrightarrow> \<forall>y \<in> snd ` set xs. x < y"
proof (induction xs arbitrary: h x)
  case Nil
  then show ?case by simp
next
  case (Cons a xs)
  obtain h' x' where a: "a = (h', x')" by (cases a)
  from Cons.prems a have "x < x'" "chain ((h', x') # xs) s" by simp_all
  with Cons.IH[of h' x'] a show ?case by fastforce
qed

lemma chain_cong:
  assumes "size_of s' = size_of s"
    and "\<forall>y \<in> snd ` set xs. outcome_of y s' = outcome_of y s \<and> reactions_of y s' = reactions_of y s"
  shows "chain xs s' = chain xs s"
  using assms(2)
proof (induction xs rule: induct_list012)
  case 1
  then show ?case by simp
next
  case (2 x)
  then show ?case using assms(1) by (cases x) simp
next
  case (3 x y zs)
  then show ?case using assms(1) by (cases x; cases y) simp
qed

lemma relays_fst: "relays dis xs out = Some outs \<Longrightarrow> map fst outs = map snd xs"
  by (induction xs arbitrary: out outs) (auto split: option.splits)

lemma drain_chain:
  assumes "chain ((h, x) # xs) s"
    and "microtasks s = [ReactionJob h x out]"
    and "relays (disposed s) ((h, x) # xs) out = Some outs"
  shows "microtasks (drain s) = [] \<and> trace (drain s) = trace s \<and> disposed (drain s) = disposed s
       \<and> ready (drain s) = ready s \<and> size_of (drain s) = size_of s
       \<and> (\<forall>yo \<in> set outs. outcome_of (fst yo) (drain s) = Some (snd yo))
       \<and> (\<forall>q. q \<notin> snd ` set ((h, x) # xs) \<longrightarrow> outcome_of q (drain s) = outcome_of q s)"
  using assms
proof (induction xs arbitrary: s h x out outs)
  case Nil
  then obtain o1 where o1: "relay (disposed s) h out = Some o1" and outs: "outs = [(x, o1)]"
    by (auto split: option.splits)
  let ?s1 = "settle x o1 (s\<lparr>microtasks := []\<rparr>)"
  have d: "drain s = drain ?s1"
    using Nil.prems(2) o1 by (simp add: drain_Cons run_job_def run_reaction_relay)
  have "microtasks ?s1 = []" using Nil.prems(1) by simp
  then have "drain ?s1 = ?s1" by (rule drain_Nil)
  with d show ?case using Nil.prems(1) outs by simp
next
  case (Cons a xs)
  obtain h' x' where a: "a = (h', x')" by (cases a)
  from Cons.prems(3) a obtain o1 rest where o1: "relay (disposed s) h out = Some o1"
    and rest: "relays (disposed s) ((h', x') # xs) o1 = Some rest" and outs: "outs = (x, o1) # rest"
    by (auto split: option.splits)
  let ?s1 = "settle x o1 (s\<lparr>microtasks := []\<rparr>)"
  have d: "drain s = drain ?s1"
    using Cons.prems(2) o1 by (simp add: drain_Cons run_job_def run_reaction_relay)
  from Cons.prems(1) a have c: "x < size_of s" "outcome_of x s = None" "x < x'"
    "reactions_of x s = [(h', x')]" "chain ((h', x') # xs) s" by simp_all
  have low: "\<forall>y \<in> snd ` set ((h', x') # xs). x < y"
    using chain_lower[OF c(5)] c(3) by auto
  have m1: "microtasks ?s1 = [ReactionJob h' x' o1]" using c by simp
  have "chain ((h', x') # xs) ?s1 = chain ((h', x') # xs) s"
    by (rule chain_cong) (use low in auto)
  then have c1: "chain ((h', x') # xs) ?s1" using c(5) by simp
  have r1: "relays (disposed ?s1) ((h', x') # xs) o1 = Some rest" using rest by simp
  note IH = Cons.IH[OF c1 m1 r1]
  have xr: "x \<notin> snd ` set ((h', x') # xs)" using low by auto
  have fr: "fst ` set rest = snd ` set ((h', x') # xs)"
    using relays_fst[OF rest] by (metis list.set_map)
  show ?case using IH d c xr outs a by auto
qed

lemma enqueue_chained:
  assumes "\<not> disposed s" "ready s = Some p" "p < size_of s"
  shows "fst (enqueue t b s) = Returned (Promise (size_of s))"
    and "size_of (snd (enqueue t b s)) = Suc (Suc (size_of s))"
    and "ready (snd (enqueue t b s)) = Some (Suc (size_of s))"
    and "trace (snd (enqueue t b s)) = trace s"
    and "disposed (snd (enqueue t b s)) = disposed s"
    and "outcome_of q (snd (enqueue t b s)) = outcome_of q s"
    and "reactions_of q (snd (enqueue t b s)) =
           (if q = p \<and> outcome_of p s = None then reactions_of p s @ [(RunTask t, size_of s)]
            else if q = size_of s then [(ReadyNext b, Suc (size_of s))]
            else reactions_of q s)"
    and "microtasks (snd (enqueue t b s)) =
           (case outcome_of p s of None \<Rightarrow> microtasks s
            | Some out \<Rightarrow> microtasks s @ [ReactionJob (RunTask t) (size_of s) out])"
  using assms
  by (auto simp: exec_simps dest: outcome_of_range split: option.splits)

lemma enqueue_all_links:
  assumes "\<not> disposed s" "ready s = Some p" "p < size_of s"
    and "outcome_of p s = None \<longrightarrow> reactions_of p s = []"
  shows "length (fst (enqueue_all ts s)) = length ts
    \<and> (\<forall>k < length ts. fst (enqueue_all ts s) ! k = Returned (Promise (size_of s + 2 * k)))
    \<and> size_of (snd (enqueue_all ts s)) = size_of s + 2 * length ts
    \<and> chain (links (size_of s) ts) (snd (enqueue_all ts s))
    \<and> trace (snd (enqueue_all ts s)) = trace s
    \<and> disposed (snd (enqueue_all ts s)) = disposed s
    \<and> (\<forall>q. outcome_of q (snd (enqueue_all ts s)) = outcome_of q s)
    \<and> (\<forall>q < size_of s. q \<noteq> p \<longrightarrow> reactions_of q (snd (enqueue_all ts s)) = reactions_of q s)
    \<and> microtasks (snd (enqueue_all ts s)) =
         (case links (size_of s) ts of
            [] \<Rightarrow> microtasks s
          | hx # _ \<Rightarrow> (case outcome_of p s of None \<Rightarrow> microtasks s
                       | Some out \<Rightarrow> microtasks s @ [ReactionJob (fst hx) (snd hx) out]))
    \<and> reactions_of p (snd (enqueue_all ts s)) =
         (case links (size_of s) ts of
            [] \<Rightarrow> reactions_of p s
          | hx # _ \<Rightarrow> (case outcome_of p s of None \<Rightarrow> [hx] | Some out \<Rightarrow> reactions_of p s))
    \<and> ready (snd (enqueue_all ts s)) = Some (if ts = [] then p else size_of s + 2 * length ts - 1)"
  using assms
proof (induction ts arbitrary: s p)
  case Nil
  then show ?case by simp
next
  case (Cons tb ts)
  obtain t b where tb: "tb = (t, b)" by (cases tb)
  let ?n = "size_of s"
  let ?s1 = "snd (enqueue t b s)"
  note E = enqueue_chained[OF Cons.prems(1,2,3), where t=t and b=b]
  have p1: "\<not> disposed ?s1" "ready ?s1 = Some (Suc ?n)" "Suc ?n < size_of ?s1"
    "outcome_of (Suc ?n) ?s1 = None \<longrightarrow> reactions_of (Suc ?n) ?s1 = []"
    using E Cons.prems by (simp_all)
  note IH = Cons.IH[OF p1]
  let ?s2 = "snd (enqueue_all ts ?s1)"
  have s2: "snd (enqueue_all (tb # ts) s) = ?s2" and r2: "fst (enqueue_all (tb # ts) s) = fst (enqueue t b s) # fst (enqueue_all ts ?s1)"
    by (simp_all add: tb split_beta)
  have o1: "outcome_of (Suc ?n) ?s1 = None" "outcome_of ?n ?s1 = None" using E(6) by simp_all
  have rn: "reactions_of ?n ?s2 = [(ReadyNext b, Suc ?n)]"
    using IH E(2) E(7)[of ?n] Cons.prems(3) by simp
  have rsn: "reactions_of (Suc ?n) ?s2 = (case links (Suc (Suc ?n)) ts of [] \<Rightarrow> [] | hx # _ \<Rightarrow> [hx])"
    using IH o1 E(2) E(7)[of "Suc ?n"] Cons.prems(3) by (simp split: list.splits)
  have ch: "chain (links ?n (tb # ts)) ?s2"
  proof (cases ts)
    case Nil
    then show ?thesis using IH E o1 rn rsn tb by simp
  next
    case (Cons tb' ts')
    then obtain h' rest where l: "links (Suc (Suc ?n)) ts = (h', Suc (Suc ?n)) # rest"
      by (cases tb') simp
    have c0: "chain ((h', Suc (Suc ?n)) # rest) ?s2" using IH E(2) l by simp
    have c1: "chain ((ReadyNext b, Suc ?n) # (h', Suc (Suc ?n)) # rest) ?s2"
      using c0 rsn l IH E(2,6) by simp
    have "chain ((RunTask t, ?n) # (ReadyNext b, Suc ?n) # (h', Suc (Suc ?n)) # rest) ?s2"
      using c1 rn IH E(2,6) by simp
    then show ?thesis using l tb by simp
  qed
  have res: "\<forall>k < length (tb # ts). fst (enqueue_all (tb # ts) s) ! k = Returned (Promise (?n + 2 * k))"
  proof (intro allI impI)
    fix k assume "k < length (tb # ts)"
    then show "fst (enqueue_all (tb # ts) s) ! k = Returned (Promise (?n + 2 * k))"
      using IH E(1,2) r2 by (cases k) simp_all
  qed
  have rp: "reactions_of p ?s2 = (case outcome_of p s of None \<Rightarrow> [(RunTask t, ?n)] | Some out \<Rightarrow> reactions_of p s)"
    using IH E(2) E(7)[of p] Cons.prems(3,4) by (auto split: option.splits)
  have mt1: "microtasks ?s2 = microtasks ?s1"
    using IH o1 by (simp split: list.splits)
  have mt: "microtasks ?s2 = (case outcome_of p s of None \<Rightarrow> microtasks s
                       | Some out \<Rightarrow> microtasks s @ [ReactionJob (RunTask t) ?n out])"
    unfolding mt1 by (rule E(8))
  have oth: "\<forall>q < ?n. q \<noteq> p \<longrightarrow> reactions_of q ?s2 = reactions_of q s"
    using IH E(2) E(7) by auto
  have sz: "size_of ?s2 = ?n + 2 * length (tb # ts)" using IH E(2) by simp
  have tr: "trace ?s2 = trace s" "disposed ?s2 = disposed s" "\<forall>q. outcome_of q ?s2 = outcome_of q s"
    using IH E(4,5,6) by simp_all
  have rd: "ready ?s2 = Some (if tb # ts = [] then p else ?n + 2 * length (tb # ts) - 1)"
    using IH E(2) by simp
  have len: "length (fst (enqueue_all (tb # ts) s)) = length (tb # ts)" using IH r2 by simp
  have lk: "links ?n (tb # ts) = (RunTask t, ?n) # (ReadyNext b, Suc ?n) # links (Suc (Suc ?n)) ts"
    using tb by simp
  have mt': "microtasks ?s2 =
         (case links ?n (tb # ts) of
            [] \<Rightarrow> microtasks s
          | hx # _ \<Rightarrow> (case outcome_of p s of None \<Rightarrow> microtasks s
                       | Some out \<Rightarrow> microtasks s @ [ReactionJob (fst hx) (snd hx) out]))"
    unfolding lk mt by (simp split: option.splits)
  have rp': "reactions_of p ?s2 =
         (case links ?n (tb # ts) of
            [] \<Rightarrow> reactions_of p s
          | hx # _ \<Rightarrow> (case outcome_of p s of None \<Rightarrow> [hx] | Some out \<Rightarrow> reactions_of p s))"
    unfolding lk rp by (simp split: option.splits)
  show ?case
    unfolding s2 by (intro conjI len res sz ch tr oth mt' rp' rd)
qed

lemma relays_links_rejected:
  assumes "\<forall>tb \<in> set (butlast ts). snd tb"
  shows "\<exists>outs. relays False (links n ts) (Rejected e) = Some outs
    \<and> (\<forall>k < length ts. (n + 2 * k, Rejected e) \<in> set outs)
    \<and> (ts \<noteq> [] \<longrightarrow> (n + 2 * length ts - 1,
           if snd (last ts) then Rejected e else Fulfilled Undefined) \<in> set outs)"
  using assms
proof (induction ts arbitrary: n)
  case Nil
  then show ?case by simp
next
  case (Cons tb ts)
  obtain t b where tb: "tb = (t, b)" by (cases tb)
  show ?case
  proof (cases "ts = []")
    case True
    then show ?thesis using tb by simp
  next
    case False
    then have b: "b" and rest: "\<forall>tb \<in> set (butlast ts). snd tb"
      using Cons.prems tb by auto
    from Cons.IH[OF rest, of "Suc (Suc n)"] obtain outs where
      o: "relays False (links (Suc (Suc n)) ts) (Rejected e) = Some outs"
      and k: "\<forall>k < length ts. (Suc (Suc n) + 2 * k, Rejected e) \<in> set outs"
      and l: "(Suc (Suc n) + 2 * length ts - 1,
           if snd (last ts) then Rejected e else Fulfilled Undefined) \<in> set outs"
      using False by auto
    have r: "relays False (links n (tb # ts)) (Rejected e) = Some ((n, Rejected e) # (Suc n, Rejected e) # outs)"
      using o b tb by simp
    have k': "\<forall>k < length (tb # ts). (n + 2 * k, Rejected e) \<in> set ((n, Rejected e) # (Suc n, Rejected e) # outs)"
    proof (intro allI impI)
      fix k assume "k < length (tb # ts)"
      then show "(n + 2 * k, Rejected e) \<in> set ((n, Rejected e) # (Suc n, Rejected e) # outs)"
        using k by (cases k) auto
    qed
    have l': "(n + 2 * length (tb # ts) - 1, if snd (last (tb # ts)) then Rejected e else Fulfilled Undefined)
        \<in> set ((n, Rejected e) # (Suc n, Rejected e) # outs)"
      using l False by simp
    show ?thesis using r k' l' by blast
  qed
qed

lemma relays_links_disposed:
  "\<exists>outs. relays True (links n ts) out = Some outs
    \<and> (\<forall>k < length ts. (n + 2 * k, Rejected (failure_of out)) \<in> set outs)"
proof (induction ts arbitrary: n out)
  case Nil
  then show ?case by simp
next
  case (Cons tb ts)
  obtain t b where tb: "tb = (t, b)" by (cases tb)
  let ?x = "Rejected (failure_of out)"
  from Cons.IH[of "Suc (Suc n)" ?x] obtain outs where
    o: "relays True (links (Suc (Suc n)) ts) ?x = Some outs"
    and k: "\<forall>k < length ts. (Suc (Suc n) + 2 * k, ?x) \<in> set outs"
    by (auto simp: failure_of_def)
  have r1: "relay True (RunTask t) out = Some ?x" by (cases out) (simp_all add: failure_of_def)
  have r: "relays True (links n (tb # ts)) out = Some ((n, ?x) # (Suc n, ?x) # outs)"
    using o tb r1 by (simp add: failure_of_def)
  have k': "\<forall>k < length (tb # ts). (n + 2 * k, ?x) \<in> set ((n, ?x) # (Suc n, ?x) # outs)"
  proof (intro allI impI)
    fix k assume "k < length (tb # ts)"
    then show "(n + 2 * k, ?x) \<in> set ((n, ?x) # (Suc n, ?x) # outs)"
      using k by (cases k) auto
  qed
  show ?case using r k' by blast
qed

lemma links_Cons: "ts \<noteq> [] \<Longrightarrow> \<exists>t rest. links n ts = (RunTask t, n) # rest"
  by (cases ts) auto

lemma poisoned_batch:
  assumes nd: "\<not> disposed s" and q: "microtasks s = []" and po: "poisoned e s"
    and bl: "\<forall>tb \<in> set (butlast ts). snd tb"
  defines "s' \<equiv> drain (snd (enqueue_all ts s))"
  shows "trace s' = trace s \<and> \<not> disposed s' \<and> microtasks s' = []
    \<and> (\<forall>k < length ts. fst (enqueue_all ts s) ! k = Returned (Promise (size_of s + 2 * k))
          \<and> outcome_of (size_of s + 2 * k) s' = Some (Rejected e))
    \<and> (if ts = [] \<or> snd (last ts) then poisoned e s' else settled_well s')
    \<and> (\<forall>y < size_of s. outcome_of y s' = outcome_of y s)
    \<and> size_of s \<le> size_of s'"
proof (cases "ts = []")
  case True
  then show ?thesis using nd q po by (simp add: s'_def drain_Nil)
next
  case False
  from po obtain p where p: "ready s = Some p" "outcome_of p s = Some (Rejected e)"
    by (auto simp: poisoned_def split: option.splits)
  have pl: "p < size_of s" using p(2) by (rule outcome_of_range)
  let ?n = "size_of s"
  let ?s1 = "snd (enqueue_all ts s)"
  have "outcome_of p s = None \<longrightarrow> reactions_of p s = []" using p by simp
  note L = enqueue_all_links[OF nd p(1) pl this, of ts]
  from links_Cons[OF False, of ?n] obtain t rest where lk: "links ?n ts = (RunTask t, ?n) # rest"
    by blast
  have m1: "microtasks ?s1 = [ReactionJob (RunTask t) ?n (Rejected e)]"
    using L lk p q by simp
  have c1: "chain ((RunTask t, ?n) # rest) ?s1" using L lk by simp
  from relays_links_rejected[OF bl, of ?n e] obtain outs where
    o: "relays False (links ?n ts) (Rejected e) = Some outs"
    and k: "\<forall>k < length ts. (?n + 2 * k, Rejected e) \<in> set outs"
    and l: "(?n + 2 * length ts - 1, if snd (last ts) then Rejected e else Fulfilled Undefined) \<in> set outs"
    using False by blast
  have r1: "relays (disposed ?s1) ((RunTask t, ?n) # rest) (Rejected e) = Some outs"
    using o lk L nd by simp
  note D = drain_chain[OF c1 m1 r1]
  have fs: "fst ` set outs = snd ` set ((RunTask t, ?n) # rest)"
    using relays_fst[OF r1] by (metis list.set_map)
  have ge: "\<forall>y \<in> snd ` set ((RunTask t, ?n) # rest). ?n \<le> y"
    using chain_lower[OF c1] by auto
  have old: "\<forall>y < ?n. outcome_of y s' = outcome_of y s"
  proof (intro allI impI)
    fix y assume "y < ?n"
    then have "y \<notin> snd ` set ((RunTask t, ?n) # rest)" using ge by auto
    then show "outcome_of y s' = outcome_of y s" using D L by (simp add: s'_def)
  qed
  have res: "\<forall>k < length ts. fst (enqueue_all ts s) ! k = Returned (Promise (?n + 2 * k))
          \<and> outcome_of (?n + 2 * k) s' = Some (Rejected e)"
    using L k D by (fastforce simp: s'_def)
  have rd: "ready s' = Some (?n + 2 * length ts - 1)" using D L False by (simp add: s'_def)
  have lo: "outcome_of (?n + 2 * length ts - 1) s'
      = Some (if snd (last ts) then Rejected e else Fulfilled Undefined)"
    using l D by (fastforce simp: s'_def)
  have fin: "if ts = [] \<or> snd (last ts) then poisoned e s' else settled_well s'"
    using rd lo False by (simp add: poisoned_def settled_well_def)
  show ?thesis using D L nd res fin old by (simp add: s'_def)
qed

lemma chain_bound: "chain zs s \<Longrightarrow> \<forall>y \<in> snd ` set zs. y < size_of s"
  by (induction zs rule: induct_list012) fastforce+

lemma chain_last:
  "chain (xs @ [(h, x)]) s \<Longrightarrow> x < size_of s \<and> outcome_of x s = None \<and> reactions_of x s = []"
proof (induction xs)
  case Nil
  then show ?case by simp
next
  case (Cons a xs)
  obtain ha xa where a: "a = (ha, xa)" by (cases a)
  obtain b rest where br: "xs @ [(h, x)] = b # rest" by (cases xs) auto
  obtain hb xb where b: "b = (hb, xb)" by (cases b)
  from Cons.prems have "chain (xs @ [(h, x)]) s" using a br b by simp
  then show ?case by (rule Cons.IH)
qed

lemma chain_snoc_link:
  assumes "chain (xs @ [(h, x)]) s" and "size_of s \<le> size_of s'"
    and "\<forall>y. outcome_of y s' = outcome_of y s"
    and "\<forall>y \<in> snd ` set xs. reactions_of y s' = reactions_of y s"
    and "reactions_of x s' = [(h', x')]" and "x < x'" and "chain ((h', x') # ys) s'"
  shows "chain (xs @ (h, x) # (h', x') # ys) s'"
  using assms(1,4)
proof (induction xs)
  case Nil
  then show ?case using assms(2,3,5,6,7) by simp
next
  case (Cons a xs)
  obtain ha xa where a: "a = (ha, xa)" by (cases a)
  obtain hb xb rest where br: "xs @ [(h, x)] = (hb, xb) # rest" by (cases xs) auto
  then obtain rest' where br': "xs @ (h, x) # (h', x') # ys = (hb, xb) # rest'" by (cases xs) auto
  from Cons.prems(1) a br have c: "xa < size_of s" "outcome_of xa s = None" "xa < xb"
    "reactions_of xa s = [(hb, xb)]" "chain (xs @ [(h, x)]) s" by simp_all
  have "chain (xs @ (h, x) # (h', x') # ys) s'" using Cons.IH[OF c(5)] Cons.prems(2) by simp
  moreover have "reactions_of xa s' = [(hb, xb)]" using Cons.prems(2) a c(4) by simp
  ultimately show ?case using a br' c assms(2,3) by simp
qed

lemma relays_append:
  "relays dis (xs @ ys) out =
     (case relays dis xs out of
        None \<Rightarrow> None
      | Some o1 \<Rightarrow>
          (case relays dis ys (if o1 = [] then out else snd (last o1)) of
             None \<Rightarrow> None
           | Some o2 \<Rightarrow> Some (o1 @ o2)))"
proof (induction xs arbitrary: out)
  case Nil
  then show ?case by (simp split: option.splits)
next
  case (Cons a xs)
  obtain h x where a: "a = (h, x)" by (cases a)
  show ?case unfolding a by (auto simp: Cons.IH split: option.splits)
qed

lemma hanging_batch:
  assumes nd: "\<not> disposed s" and mq: "microtasks s = []" and rd: "ready s = Some p"
    and ql: "q < size_of s" and qo: "outcome_of q s = None"
    and ch: "chain (pre @ [(hp, p)]) s"
    and qr: "reactions_of q s = [hd (pre @ [(hp, p)])]"
    and qx: "q < snd (hd (pre @ [(hp, p)]))"
    and po: "relays dis (pre @ [(hp, p)]) out = Some po"
    and lo: "relays dis (links (size_of s) ts) (snd (last po)) = Some lo"
  defines "s1 \<equiv> snd (enqueue_all ts s)"
  defines "s2 \<equiv> (if dis then dispose s1 else s1)"
  defines "s3 \<equiv> drain (settle q out s2)"
  shows "trace s3 = trace s \<and> microtasks s3 = [] \<and> disposed s3 = dis
    \<and> outcome_of q s3 = Some out
    \<and> (\<forall>yo \<in> set (po @ lo). outcome_of (fst yo) s3 = Some (snd yo))
    \<and> (\<forall>y < size_of s. y \<noteq> q \<longrightarrow> y \<notin> snd ` set (pre @ [(hp, p)]) \<longrightarrow> outcome_of y s3 = outcome_of y s)
    \<and> ready s3 = ready s1 \<and> size_of s3 = size_of s + 2 * length ts
    \<and> (\<forall>k < length ts. fst (enqueue_all ts s) ! k = Returned (Promise (size_of s + 2 * k)))
    \<and> length (fst (enqueue_all ts s)) = length ts \<and> microtasks s1 = []"
proof -
  let ?n = "size_of s"
  let ?pre = "pre @ [(hp, p)]"
  from chain_last[OF ch] have pl: "p < ?n" "outcome_of p s = None" "reactions_of p s = []" by simp_all
  have "outcome_of p s = None \<longrightarrow> reactions_of p s = []" using pl by simp
  note L = enqueue_all_links[OF nd rd pl(1) this, of ts]
  obtain h0 x0 rest0 where pre0: "?pre = (h0, x0) # rest0" by (cases ?pre) auto
  have low: "\<forall>y \<in> snd ` set ?pre. q < y"
  proof
    fix y assume "y \<in> snd ` set ?pre"
    then have "y = x0 \<or> y \<in> snd ` set rest0" using pre0 by auto
    moreover have "chain ((h0, x0) # rest0) s" using ch pre0 by simp
    moreover have "q < x0" using qx pre0 by simp
    ultimately show "q < y" using chain_lower[of h0 x0 rest0 s] by (auto intro: less_trans)
  qed
  have pn: "\<forall>y \<in> snd ` set pre. y \<noteq> p"
  proof -
    have "\<forall>y \<in> snd ` set pre. y < p" using ch
    proof (induction pre)
      case Nil
      then show ?case by simp
    next
      case (Cons a pre)
      obtain ha xa where a: "a = (ha, xa)" by (cases a)
      obtain hb xb rest where br: "pre @ [(hp, p)] = (hb, xb) # rest" by (cases pre) auto
      from Cons.prems a br have c: "chain ((ha, xa) # (hb, xb) # rest) s" by simp
      then have "chain (pre @ [(hp, p)]) s" using br by simp
      from Cons.IH[OF this] chain_lower[OF c] br a show ?case
        by (metis Un_iff image_Un insert_iff list.set(2) list.simps(15) set_append snd_conv image_insert singletonI)
    qed
    then show ?thesis by auto
  qed
  have bound: "\<forall>y \<in> snd ` set ?pre. y < ?n" by (rule chain_bound[OF ch])
  \<comment> \<open>the chain of the whole queue in the state before the promise settles\<close>
  have dis2: "disposed s2 = dis" using L nd by (simp add: s2_def s1_def dispose_def)
  have obs2: "size_of s2 = size_of s1" "\<forall>y. outcome_of y s2 = outcome_of y s1"
    "\<forall>y. reactions_of y s2 = reactions_of y s1" "microtasks s2 = microtasks s1"
    "trace s2 = trace s1" "ready s2 = ready s1"
    by (simp_all add: s2_def dispose_def)
  have full: "chain (?pre @ links ?n ts) s2"
  proof (cases "ts = []")
    case True
    have "chain ?pre s2 = chain ?pre s"
      by (rule chain_cong) (use obs2 True in \<open>simp_all add: s1_def\<close>)
    then show ?thesis using ch True by simp
  next
    case False
    from links_Cons[OF False, of ?n] obtain t rest where lk: "links ?n ts = (RunTask t, ?n) # rest"
      by blast
    have c1: "chain ((RunTask t, ?n) # rest) s2"
    proof -
      have "chain (links ?n ts) s2 = chain (links ?n ts) s1"
        by (rule chain_cong) (use obs2 in simp_all)
      then show ?thesis using L lk by (simp add: s1_def)
    qed
    have r: "reactions_of p s2 = [(RunTask t, ?n)]" using L lk pl obs2 by (simp add: s1_def)
    have oth: "\<forall>y \<in> snd ` set pre. reactions_of y s2 = reactions_of y s"
      using L bound pn obs2 by (auto simp: s1_def)
    have "chain (pre @ (hp, p) # (RunTask t, ?n) # rest) s2"
      by (rule chain_snoc_link[OF ch _ _ oth r pl(1) c1]) (use L obs2 in \<open>simp_all add: s1_def\<close>)
    then show ?thesis using lk by simp
  qed
  let ?s2' = "settle q out s2"
  have qp: "q \<noteq> p" using low by auto
  have "reactions_of q s1 = reactions_of q s" using L ql qp by (simp add: s1_def)
  then have q2: "q < size_of s2" "outcome_of q s2 = None" "reactions_of q s2 = [(h0, x0)]"
    using L obs2 ql qo qr pre0 by (simp_all add: s1_def)
  have m2: "microtasks s2 = []"
    using L pl mq obs2 by (simp add: s1_def split: list.splits)
  have m3: "microtasks ?s2' = [ReactionJob h0 x0 out]" using q2 m2 by simp
  have f2: "chain ((h0, x0) # rest0 @ links ?n ts) s2" using full pre0 by simp
  have qx0: "q < x0" using qx pre0 by simp
  have lowall: "\<forall>y \<in> snd ` set (?pre @ links ?n ts). q < y"
  proof
    fix y assume "y \<in> snd ` set (?pre @ links ?n ts)"
    then have "y = x0 \<or> y \<in> snd ` set (rest0 @ links ?n ts)" using pre0 by auto
    then show "q < y" using chain_lower[OF f2] qx0 by (auto intro: less_trans)
  qed
  have full': "chain ((h0, x0) # rest0 @ links ?n ts) ?s2'"
  proof -
    have "chain (?pre @ links ?n ts) ?s2' = chain (?pre @ links ?n ts) s2"
    proof (rule chain_cong)
      show "size_of ?s2' = size_of s2" by simp
      show "\<forall>y \<in> snd ` set (?pre @ links ?n ts).
          outcome_of y ?s2' = outcome_of y s2 \<and> reactions_of y ?s2' = reactions_of y s2"
      proof
        fix y assume "y \<in> snd ` set (?pre @ links ?n ts)"
        then have "y \<noteq> q" using lowall by auto
        then show "outcome_of y ?s2' = outcome_of y s2 \<and> reactions_of y ?s2' = reactions_of y s2"
          by simp
      qed
    qed
    then show ?thesis using full pre0 by simp
  qed
  have rel: "relays (disposed ?s2') ((h0, x0) # rest0 @ links ?n ts) out = Some (po @ lo)"
  proof -
    have "po \<noteq> []" using po pre0 by (auto split: option.splits)
    then have "relays dis (?pre @ links ?n ts) out = Some (po @ lo)"
      using po lo relays_append[of dis ?pre "links ?n ts" out] by simp
    then show ?thesis using pre0 dis2 by simp
  qed
  note D = drain_chain[OF full' m3 rel]
  have qn: "q \<notin> snd ` set ((h0, x0) # rest0 @ links ?n ts)" using lowall pre0 by auto
  have oq: "outcome_of q s3 = Some out" using D qn q2 by (simp add: s3_def)
  have old: "\<forall>y < ?n. y \<noteq> q \<longrightarrow> y \<notin> snd ` set ?pre \<longrightarrow> outcome_of y s3 = outcome_of y s"
  proof (intro allI impI)
    fix y assume y: "y < ?n" "y \<noteq> q" "y \<notin> snd ` set ?pre"
    have "\<forall>z \<in> snd ` set (links ?n ts). ?n \<le> z"
    proof (cases "ts = []")
      case True then show ?thesis by simp
    next
      case False
      from links_Cons[OF False, of ?n] obtain t rest where lk: "links ?n ts = (RunTask t, ?n) # rest"
        by blast
      have "chain ((RunTask t, ?n) # rest) s1" using L lk by (simp add: s1_def)
      from chain_lower[OF this] show ?thesis using lk by auto
    qed
    then have "y \<notin> snd ` set ((h0, x0) # rest0 @ links ?n ts)" using y pre0
      by (metis (no_types, lifting) Un_iff append_Cons image_Un not_less set_append)
    then show "outcome_of y s3 = outcome_of y s" using D L obs2 y by (simp add: s3_def s1_def)
  qed
  show ?thesis
    using D L obs2 dis2 oq old m2 by (simp add: s3_def s1_def)
qed

lemma healthy_cases:
  assumes "healthy s"
  obtains (idle) "ready s = None"
    | (chained) p v where "ready s = Some p" "outcome_of p s = Some (Fulfilled v)" "p < size_of s"
  using assms
  by (auto simp: healthy_def settled_well_def split: option.splits outcome.splits dest: outcome_of_range)

lemma running_idle:
  assumes "healthy s0" "ready s0 = None" "q < size_of s0" "outcome_of q s0 = None" "reactions_of q s0 = []"
    and "sA = submit (Task a (ReturnsPromise q)) bA s0"
  shows "fst (enqueue (Task a (ReturnsPromise q)) bA s0) = Returned (Promise q)"
    and "\<not> disposed sA" "microtasks sA = []" "ready sA = Some (size_of s0)"
    and "trace sA = trace s0 @ [Invoked (Task a (ReturnsPromise q))]"
    and "q < size_of sA" "outcome_of q sA = None"
    and "chain ([] @ [(ReadyFirst bA, size_of s0)]) sA"
    and "reactions_of q sA = [hd ([] @ [(ReadyFirst bA, size_of s0)])]"
    and "q < snd (hd ([] @ [(ReadyFirst bA, size_of s0)]))"
    and "size_of sA = Suc (size_of s0)"
  using assms unfolding submit_def
  by (simp_all add: healthy_def exec_simps)

lemma running_chained:
  assumes "healthy s0" "ready s0 = Some p" "outcome_of p s0 = Some (Fulfilled v)" "p < size_of s0"
    "q < size_of s0" "outcome_of q s0 = None" "reactions_of q s0 = []"
    and "sA = submit (Task a (ReturnsPromise q)) bA s0"
  shows "fst (enqueue (Task a (ReturnsPromise q)) bA s0) = Returned (Promise (size_of s0))"
    and "\<not> disposed sA" "microtasks sA = []" "ready sA = Some (Suc (size_of s0))"
    and "trace sA = trace s0 @ [Invoked (Task a (ReturnsPromise q))]"
    and "q < size_of sA" "outcome_of q sA = None"
    and "chain ([(Adopt, size_of s0)] @ [(ReadyNext bA, Suc (size_of s0))]) sA"
    and "reactions_of q sA = [hd ([(Adopt, size_of s0)] @ [(ReadyNext bA, Suc (size_of s0))])]"
    and "q < snd (hd ([(Adopt, size_of s0)] @ [(ReadyNext bA, Suc (size_of s0))]))"
    and "size_of sA = Suc (Suc (size_of s0))"
  using assms unfolding submit_def
  by (simp_all add: healthy_def exec_simps)


lemma relays_last:
  assumes "relays dis (xs @ [(h, x)]) out = Some po"
  shows "po \<noteq> [] \<and> fst (last po) = x"
proof -
  have m: "map fst po = map snd (xs @ [(h, x)])" using relays_fst[OF assms] .
  then have ne: "po \<noteq> []" by auto
  have "fst (last po) = last (map fst po)" using ne by (simp add: last_map)
  also have "\<dots> = x" unfolding m by simp
  finally show ?thesis using ne by simp
qed

lemma results_delivered:
  assumes "length rs = n" and "\<forall>k < n. rs ! k = Returned (Promise (m + 2 * k))"
    and "\<forall>k < n. outcome_of (m + 2 * k) s = Some out"
  shows "\<forall>r \<in> set rs. delivered r s = Some out"
proof
  fix r assume "r \<in> set rs"
  then obtain k where "k < length rs" "rs ! k = r" by (auto simp: in_set_conv_nth)
  then show "delivered r s = Some out" using assms by (auto simp: delivered_def)
qed



lemma length_enqueue_all [simp]: "length (fst (enqueue_all ts s)) = length ts"
  by (induction ts arbitrary: s) (auto simp: split_beta)




section \<open>TaskQueue: enqueue on a disposed queue\<close>

lemma enqueue_disposed:
  "disposed s \<Longrightarrow> enqueue t bail s = (Threw QueueDisposed, s)"
  by (simp add: enqueue_def)

text \<open>
  Claim C9. Calling \<open>enqueue\<close> on a disposed queue throws the disposed-queue error to
  the caller at once; the task is not invoked and the state of the queue, its chain
  included, is exactly what it was.
\<close>

theorem enqueue_on_disposed_throws:
  "disposed s \<Longrightarrow> enqueue t bail s = (Threw QueueDisposed, s)"
  by (simp add: enqueue_def)

theorem enqueue_on_disposed_throws_witness:
  "disposed (run [NewPromise, Enqueue (Task 1 (ReturnsPromise 0)) False,
                  Enqueue (Task 2 (Returns (Value 2))) True, Dispose] (init returns_at_once))
   \<and> enqueue (Task 3 (Returns (Value 3))) False
        (run [NewPromise, Enqueue (Task 1 (ReturnsPromise 0)) False,
              Enqueue (Task 2 (Returns (Value 2))) True, Dispose] (init returns_at_once))
     = (Threw QueueDisposed,
        run [NewPromise, Enqueue (Task 1 (ReturnsPromise 0)) False,
             Enqueue (Task 2 (Returns (Value 2))) True, Dispose] (init returns_at_once))"
proof -
  let ?s = "run [NewPromise, Enqueue (Task 1 (ReturnsPromise 0)) False,
                 Enqueue (Task 2 (Returns (Value 2))) True, Dispose] (init returns_at_once)"
  have d: "disposed ?s" by (simp add: run_def dispose_def)
  from enqueue_on_disposed_throws [OF d] d show ?thesis by simp
qed

section \<open>TaskQueue: synchronous tasks on a queue with no chain\<close>

lemma enqueue_idle_sync:
  assumes "\<not> disposed s" "ready s = None" "synchronous b"
  shows "fst (enqueue (Task n b) bail s) = call b"
    and "trace (snd (enqueue (Task n b) bail s)) = trace s @ [Invoked (Task n b)]"
    and "disposed (snd (enqueue (Task n b) bail s)) = False"
    and "\<not> bails b bail \<Longrightarrow> ready (snd (enqueue (Task n b) bail s)) = None"
  using assms
  by (cases b; simp add: enqueue_def call_def synchronous_def bails_def then_promise_eq split_beta)+

text \<open>
  Claim C4, as the code has it. On a queue that is not disposed and has no chain
  (\<open>#ready\<close> unset: a new queue, or one whose tasks so far were all synchronous and
  none of them threw under \<open>bail = true\<close>), a synchronous task is called at once and
  its value or error comes back synchronously; in a sequence of synchronous tasks every
  task is called at once, in submission order, as long as no earlier task of the
  sequence threw under \<open>bail = true\<close>.
\<close>

theorem idle_queue_runs_synchronous_tasks_at_once:
  assumes "\<not> disposed s" and "ready s = None"
    and "\<forall>x \<in> set xs. synchronous (fst (snd x))"
    and "\<forall>x \<in> set (butlast xs). \<not> bails (fst (snd x)) (snd (snd x))"
  shows "fst (enqueue_all (map (\<lambda>(n, b, bail). (Task n b, bail)) xs) s)
           = map (\<lambda>(n, b, bail). call b) xs
       \<and> trace (snd (enqueue_all (map (\<lambda>(n, b, bail). (Task n b, bail)) xs) s))
           = trace s @ map (\<lambda>(n, b, bail). Invoked (Task n b)) xs"
  using assms
proof (induction xs arbitrary: s)
  case Nil
  then show ?case by simp
next
  case (Cons x xs)
  obtain n b bail where x: "x = (n, b, bail)" by (cases x)
  let ?s1 = "snd (enqueue (Task n b) bail s)"
  have sy: "synchronous b" using Cons.prems(3) x by simp
  note one = enqueue_idle_sync[OF Cons.prems(1,2) sy, where n=n and bail=bail]
  show ?case
  proof (cases xs)
    case Nil
    then show ?thesis using one x by (simp add: split_beta)
  next
    case (Cons y ys)
    then have nb: "\<not> bails b bail"
      and rest: "\<forall>x \<in> set (butlast xs). \<not> bails (fst (snd x)) (snd (snd x))"
      using Cons.prems(4) x by auto
    have "\<not> disposed ?s1" "ready ?s1 = None" using one nb by simp_all
    from Cons.IH[OF this _ rest] Cons.prems(3)
    show ?thesis using one x by (simp add: split_beta)
  qed
qed

theorem idle_queue_runs_synchronous_tasks_at_once_witness:
  "fst (enqueue_all (map (\<lambda>(n, b, bail). (Task n b, bail))
          [(1, Returns (Value 1), False), (2, Throws (Failure 5), False),
           (3, Throws (Failure 7), True)]) (init returns_at_once))
     = [Returned (Plain (Value 1)), Threw (Failure 5), Threw (Failure 7)]
   \<and> trace (snd (enqueue_all (map (\<lambda>(n, b, bail). (Task n b, bail))
          [(1, Returns (Value 1), False), (2, Throws (Failure 5), False),
           (3, Throws (Failure 7), True)]) (init returns_at_once)))
     = [Invoked (Task 1 (Returns (Value 1))), Invoked (Task 2 (Throws (Failure 5))),
        Invoked (Task 3 (Throws (Failure 7)))]"
  using idle_queue_runs_synchronous_tasks_at_once
    [of "init returns_at_once"
        "[(1, Returns (Value 1), False), (2, Throws (Failure 5), False),
          (3, Throws (Failure 7), True)]"]
  by (simp add: init_def synchronous_def bails_def call_def)

text \<open>
  The claim as stated fails twice. A new queue is idle, yet of the two synchronous
  tasks submitted to it the second is not called, at once or after the host has
  drained its jobs, because the first threw under \<open>bail = true\<close>. And a queue whose
  only task so far returned a promise that has since settled does not call a
  synchronous task at once: it hands back a promise and calls the task in a later job.
\<close>

theorem idle_queue_counterexample:
  "ready (init returns_at_once) = None
   \<and> fst (enqueue_all [(Task 1 (Throws (Failure 7)), True), (Task 2 (Returns (Value 2)), False)]
          (init returns_at_once))
       = [Threw (Failure 7), Returned (Promise 2)]
   \<and> trace (drain (snd (enqueue_all
          [(Task 1 (Throws (Failure 7)), True), (Task 2 (Returns (Value 2)), False)]
          (init returns_at_once))))
       = [Invoked (Task 1 (Throws (Failure 7)))]
   \<and> outcome_of 0 (run [NewPromise, Enqueue (Task 1 (ReturnsPromise 0)) False,
          Settle 0 (Fulfilled (Value 1)), Tick] (init returns_at_once))
       = Some (Fulfilled (Value 1))
   \<and> microtasks (run [NewPromise, Enqueue (Task 1 (ReturnsPromise 0)) False,
          Settle 0 (Fulfilled (Value 1)), Tick] (init returns_at_once)) = []
   \<and> fst (enqueue (Task 2 (Returns (Value 2))) False
        (run [NewPromise, Enqueue (Task 1 (ReturnsPromise 0)) False,
              Settle 0 (Fulfilled (Value 1)), Tick] (init returns_at_once)))
       = Returned (Promise 2)
   \<and> trace (snd (enqueue (Task 2 (Returns (Value 2))) False
        (run [NewPromise, Enqueue (Task 1 (ReturnsPromise 0)) False,
              Settle 0 (Fulfilled (Value 1)), Tick] (init returns_at_once))))
       = [Invoked (Task 1 (ReturnsPromise 0))]"
  by code_simp

section \<open>TaskQueue: a failure without bail\<close>





section \<open>TaskQueue: a failure under bail\<close>




section \<open>TaskQueue: dispose\<close>

lemma invocations_trace: "trace s' = trace s \<Longrightarrow> invocations s' = invocations s"
  by (simp add: invocations_def)

lemma invocations_closed [simp]: "invocations (close_frame f s) = invocations s"
  by (simp add: invocations_def close_frame_def)

lemma disposed_run_reaction:
  assumes "disposed s"
  shows "disposed (run_reaction h d out s) \<and> invocations (run_reaction h d out s) = invocations s"
  using assms
  by (cases h; cases out) (simp_all add: run_reaction_def close_frame_def invocations_def)

lemma disposed_run_job:
  assumes "disposed s"
  shows "disposed (run_job j s) \<and> invocations (run_job j s) = invocations s"
  using assms disposed_run_reaction
  by (cases j) (simp_all add: run_job_def invocations_def)

lemma disposed_drain:
  "disposed s \<Longrightarrow> disposed (drain s) \<and> invocations (drain s) = invocations s"
proof (induction s rule: drain.induct)
  case (1 s)
  show ?case
  proof (cases "microtasks s")
    case Nil
    then show ?thesis using 1 by (simp add: drain_Nil)
  next
    case (Cons j js)
    let ?s1 = "s\<lparr>microtasks := js\<rparr>"
    have d: "disposed ?s1" using "1.prems" by simp
    from disposed_run_job[OF d, of j]
    have a: "disposed (run_job j ?s1)" "invocations (run_job j ?s1) = invocations s"
      by (simp_all add: invocations_def)
    from "1.IH"[OF Cons a(1)] a(2) show ?thesis by (simp add: drain_Cons[OF Cons])
  qed
qed

lemma disposed_exec:
  assumes "disposed s"
  shows "disposed (exec ev s) \<and> invocations (exec ev s) = invocations s"
proof (cases ev)
  case (Enqueue t b)
  then show ?thesis using assms by (simp add: enqueue_def)
next
  case Dispose
  then show ?thesis using assms by (simp add: dispose_def invocations_def)
next
  case (Draw f)
  then show ?thesis using assms
    by (simp add: draw_def Let_def enqueue_def abort_def close_frame_def invocations_def
        split: option.splits)
next
  case Redraw
  then show ?thesis using assms
    by (simp add: redraw_def Let_def enqueue_def invocations_def split: option.splits)
next
  case ControllerDispose
  then show ?thesis using assms
    by (simp add: controller_dispose_def Let_def dispose_def abort_def close_frame_def
        invocations_def split: option.splits)
next
  case NewPromise
  then show ?thesis using assms by (simp add: invocations_def)
next
  case (Settle p out)
  then show ?thesis using assms by (simp add: invocations_def)
next
  case Tick
  then show ?thesis using assms disposed_drain by simp
qed

lemma disposed_run:
  "disposed s \<Longrightarrow> disposed (run evs s) \<and> invocations (run evs s) = invocations s"
proof (induction evs arbitrary: s)
  case Nil
  then show ?case by (simp add: run_def)
next
  case (Cons ev evs)
  from disposed_exec[OF Cons.prems, of ev]
  have a: "disposed (exec ev s)" "invocations (exec ev s) = invocations s" by simp_all
  from Cons.IH[OF a(1)] a(2) show ?case by (simp add: run_def)
qed

lemma failure_of_chain: "outcome_of p s = Some out \<Longrightarrow> chain_failure (Some p) s = failure_of out"
  by (cases out) (simp_all add: chain_failure_def failure_of_def)

lemma hanging_disposed:
  assumes nd: "\<not> disposed s" and mq: "microtasks s = []" and rd: "ready s = Some p"
    and ql: "q < size_of s" and qo: "outcome_of q s = None"
    and ch: "chain (pre @ [(hp, p)]) s"
    and qr: "reactions_of q s = [hd (pre @ [(hp, p)])]"
    and qx: "q < snd (hd (pre @ [(hp, p)]))"
    and po: "relays True (pre @ [(hp, p)]) out = Some po"
    and s3: "s3 = drain (settle q out (dispose (snd (enqueue_all ts s))))"
  shows "trace s3 = trace s \<and> outcome_of q s3 = Some out
    \<and> (\<forall>r \<in> set (fst (enqueue_all ts s)).
          delivered r s3 = Some (Rejected (chain_failure (ready s) s3)))
    \<and> (\<forall>yo \<in> set po. outcome_of (fst yo) s3 = Some (snd yo))"
proof -
  let ?n = "size_of s"
  from relays_links_disposed[of ?n ts "snd (last po)"] obtain lo where
    lo: "relays True (links ?n ts) (snd (last po)) = Some lo"
    and k: "\<forall>k < length ts. (?n + 2 * k, Rejected (failure_of (snd (last po)))) \<in> set lo"
    by blast
  note H = hanging_batch[OF nd mq rd ql qo ch qr qx po lo, simplified, folded s3]
  have outs: "\<And>y out. (y, out) \<in> set po \<or> (y, out) \<in> set lo \<Longrightarrow> outcome_of y s3 = Some out"
  proof -
    fix y out assume a: "(y, out) \<in> set po \<or> (y, out) \<in> set lo"
    have "\<forall>yo \<in> set po \<union> set lo. outcome_of (fst yo) s3 = Some (snd yo)"
      using H by simp
    from bspec[OF this, of "(y, out)"] a show "outcome_of y s3 = Some out" by auto
  qed
  from relays_last[OF po] have pp: "po \<noteq> []" "fst (last po) = p" by simp_all
  then have "(p, snd (last po)) \<in> set po" by (metis last_in_set prod.collapse)
  then have op: "outcome_of p s3 = Some (snd (last po))" by (simp add: outs)
  have cf: "chain_failure (ready s) s3 = failure_of (snd (last po))"
    using failure_of_chain[OF op] rd by simp
  have res: "\<forall>k < length ts. outcome_of (?n + 2 * k) s3 = Some (Rejected (failure_of (snd (last po))))"
    using k by (simp add: outs)
  have del: "\<forall>r \<in> set (fst (enqueue_all ts s)).
      delivered r s3 = Some (Rejected (failure_of (snd (last po))))"
    by (rule results_delivered[of _ "length ts" ?n]) (use H res in simp_all)
  have pout: "\<forall>yo \<in> set po. outcome_of (fst yo) s3 = Some (snd yo)" using outs by auto
  show ?thesis using H del pout cf by simp
qed


text \<open>
  Claim C5, as the code has it. Task A was called on a healthy queue and is running
  (it returned the promise \<open>q\<close>); the tasks \<open>ts\<close> are scheduled behind it; then
  \<open>dispose\<close> is called, and later A settles with \<open>out\<close>. Then A is the only task
  called; A is not cancelled, its caller gets \<open>out\<close>; every scheduled task gets a
  result and it is a failure: the one \<open>#ready\<close> (as A left it) rejects with, and the
  disposed-queue error if \<open>#ready\<close> fulfils. From the disposal on, whatever happens,
  \<open>enqueue\<close> throws the disposed-queue error and changes nothing, and no task is
  called.
\<close>

theorem disposed_queue_calls_nothing:
  assumes h: "healthy s0"
    and q: "q < size_of s0" "outcome_of q s0 = None" "reactions_of q s0 = []"
  shows "let A = Task a (ReturnsPromise q);
             sA = submit A bA s0;
             (rs, s1) = enqueue_all ts sA;
             s2 = dispose s1;
             s3 = drain (settle q out s2)
         in trace s3 = trace s0 @ [Invoked A]
          \<and> delivered (fst (enqueue A bA s0)) s3 = Some out
          \<and> length rs = length ts
          \<and> (\<forall>r \<in> set rs. delivered r s3 = Some (Rejected (chain_failure (ready sA) s3)))
          \<and> (\<forall>evs t b. enqueue t b (run evs s2) = (Threw QueueDisposed, run evs s2))
          \<and> (\<forall>evs. invocations (run evs s2) = invocations s2)"
proof -
  let ?A = "Task a (ReturnsPromise q)"
  define sA where sA: "sA = submit ?A bA s0"
  let ?s2 = "dispose (snd (enqueue_all ts sA))"
  let ?s3 = "drain (settle q out ?s2)"
  have d2: "disposed ?s2" by (simp add: dispose_def)
  have later: "\<forall>evs t b. enqueue t b (run evs ?s2) = (Threw QueueDisposed, run evs ?s2)"
    using disposed_run[OF d2] by (simp add: enqueue_disposed)
  have inv: "\<forall>evs. invocations (run evs ?s2) = invocations ?s2"
    using disposed_run[OF d2] by simp
  have main: "trace ?s3 = trace s0 @ [Invoked ?A]
      \<and> delivered (fst (enqueue ?A bA s0)) ?s3 = Some out
      \<and> (\<forall>r \<in> set (fst (enqueue_all ts sA)).
            delivered r ?s3 = Some (Rejected (chain_failure (ready sA) ?s3)))"
    using h
  proof (cases rule: healthy_cases)
    case idle
    note R = running_idle[OF h idle q sA]
    obtain x where x: "relay True (ReadyFirst bA) out = Some x" by (cases out) simp_all
    have po: "relays True ([] @ [(ReadyFirst bA, size_of s0)]) out = Some [(size_of s0, x)]"
      using x by simp
    note H = hanging_disposed[OF R(2,3,4,6,7,8,9,10) po refl, of ts]
    show ?thesis using H R(1,5) by (simp add: delivered_def)
  next
    case (chained p v)
    note R = running_chained[OF h chained q sA]
    obtain x where x: "relay True (ReadyNext bA) out = Some x" by (cases out) simp_all
    have po: "relays True ([(Adopt, size_of s0)] @ [(ReadyNext bA, Suc (size_of s0))]) out
        = Some [(size_of s0, out), (Suc (size_of s0), x)]"
      using x by simp
    note H = hanging_disposed[OF R(2,3,4,6,7,8,9,10) po refl, of ts]
    show ?thesis using H R(1,5) by (simp add: delivered_def)
  qed
  show ?thesis
    using main later inv unfolding sA by (simp add: Let_def split_beta)
qed

theorem disposed_queue_calls_nothing_witness:
  "let A = Task 1 (ReturnsPromise 0);
       sA = submit A False (snd (new_promise None (init returns_at_once)));
       (rs, s1) = enqueue_all [(Task 2 (Returns (Value 2)), False)] sA;
       s2 = dispose s1;
       s3 = drain (settle 0 (Fulfilled (Value 1)) s2)
   in trace s3 = trace (snd (new_promise None (init returns_at_once))) @ [Invoked A]
    \<and> delivered (fst (enqueue A False (snd (new_promise None (init returns_at_once))))) s3
        = Some (Fulfilled (Value 1))
    \<and> length rs = length [(Task 2 (Returns (Value 2)), False)]
    \<and> (\<forall>r \<in> set rs. delivered r s3 = Some (Rejected (chain_failure (ready sA) s3)))
    \<and> (\<forall>evs t b. enqueue t b (run evs s2) = (Threw QueueDisposed, run evs s2))
    \<and> (\<forall>evs. invocations (run evs s2) = invocations s2)"
proof (rule disposed_queue_calls_nothing)
  show "healthy (snd (new_promise None (init returns_at_once)))"
    by (simp add: healthy_def init_def new_promise_def)
  show "0 < size_of (snd (new_promise None (init returns_at_once)))"
    by (simp add: init_def new_promise_def size_of_def)
  show "outcome_of 0 (snd (new_promise None (init returns_at_once))) = None"
    by (simp add: init_def new_promise_def outcome_of_def)
  show "reactions_of 0 (snd (new_promise None (init returns_at_once))) = []"
    by (simp add: init_def new_promise_def reactions_of_def)
qed

text \<open>
  The claim as stated fails. Task 2 is scheduled behind the running task 1 when the
  queue is disposed; task 1 then fails. Task 2 is never called, but its result fails
  with the failure of task 1, not with the disposed-queue error.
\<close>

theorem disposed_queue_counterexample:
  "fst (enqueue (Task 2 (Returns (Value 2))) False
        (run [NewPromise, Enqueue (Task 1 (ReturnsPromise 0)) True] (init returns_at_once)))
     = Returned (Promise 2)
   \<and> outcome_of 2 (run [NewPromise, Enqueue (Task 1 (ReturnsPromise 0)) True,
          Enqueue (Task 2 (Returns (Value 2))) False, Dispose] (init returns_at_once)) = None
   \<and> disposed (run [NewPromise, Enqueue (Task 1 (ReturnsPromise 0)) True,
          Enqueue (Task 2 (Returns (Value 2))) False, Dispose] (init returns_at_once))
   \<and> outcome_of 2 (run [NewPromise, Enqueue (Task 1 (ReturnsPromise 0)) True,
          Enqueue (Task 2 (Returns (Value 2))) False, Dispose,
          Settle 0 (Rejected (Failure 7)), Tick] (init returns_at_once))
     = Some (Rejected (Failure 7))
   \<and> trace (run [NewPromise, Enqueue (Task 1 (ReturnsPromise 0)) True,
          Enqueue (Task 2 (Returns (Value 2))) False, Dispose,
          Settle 0 (Rejected (Failure 7)), Tick] (init returns_at_once))
     = [Invoked (Task 1 (ReturnsPromise 0))]"
  by code_simp

section \<open>RedrawController: fields and the trace\<close>

text \<open>Fields that no promise job changes.\<close>

lemma draw_body_fields [simp]:
  "lastFrame (draw_body who f P s) = lastFrame s"
  "disposed (draw_body who f P s) = disposed s"
  "draw_callback (draw_body who f P s) = draw_callback s"
  "pendingRedraw (draw_body who f P s) = pendingRedraw s"
  "abort_controllers (draw_body who f P s) = abort_controllers s"
  "ready (draw_body who f P s) = ready s"
  by (simp_all add: draw_body_def Let_def close_frame_def split: completion.splits jsval.splits)

lemma invoke_task_fields [simp]:
  "lastFrame (snd (invoke_task t s)) = lastFrame s"
  "disposed (snd (invoke_task t s)) = disposed s"
  "draw_callback (snd (invoke_task t s)) = draw_callback s"
  "abort_controllers (snd (invoke_task t s)) = abort_controllers s"
  "ready (snd (invoke_task t s)) = ready s"
  "pendingRedraw s = None \<Longrightarrow> pendingRedraw (snd (invoke_task t s)) = None"
  by (cases t; simp add: invoke_task_def Let_def split_beta split: option.splits)+

lemma run_reaction_fields [simp]:
  "lastFrame (run_reaction h d out s) = lastFrame s"
  "disposed (run_reaction h d out s) = disposed s"
  "draw_callback (run_reaction h d out s) = draw_callback s"
  "abort_controllers (run_reaction h d out s) = abort_controllers s"
  "ready (run_reaction h d out s) = ready s"
  "pendingRedraw s = None \<Longrightarrow> pendingRedraw (run_reaction h d out s) = None"
  by (cases h; cases out;
      simp add: run_reaction_def resolve_def close_frame_def split_beta
           split: completion.splits jsval.splits)+

lemma run_job_fields [simp]:
  "lastFrame (run_job j s) = lastFrame s"
  "disposed (run_job j s) = disposed s"
  "draw_callback (run_job j s) = draw_callback s"
  "abort_controllers (run_job j s) = abort_controllers s"
  "ready (run_job j s) = ready s"
  "pendingRedraw s = None \<Longrightarrow> pendingRedraw (run_job j s) = None"
  by (cases j; simp add: run_job_def)+

lemma drain_fields:
  "lastFrame (drain s) = lastFrame s \<and> disposed (drain s) = disposed s
   \<and> draw_callback (drain s) = draw_callback s \<and> abort_controllers (drain s) = abort_controllers s
   \<and> ready (drain s) = ready s
   \<and> (pendingRedraw s = None \<longrightarrow> pendingRedraw (drain s) = None)"
proof (induction s rule: drain.induct)
  case (1 s)
  show ?case
  proof (cases "microtasks s")
    case Nil
    then show ?thesis by (simp add: drain_Nil)
  next
    case (Cons j js)
    from "1.IH"[OF Cons] show ?thesis by (simp add: drain_Cons[OF Cons])
  qed
qed


lemma draw_body_trace: "\<exists>rest. trace (draw_body who f P s) = trace s @ rest"
  by (simp add: draw_body_def Let_def close_frame_def split: completion.splits jsval.splits)

lemma invoke_task_trace: "\<exists>rest. trace (snd (invoke_task t s)) = trace s @ rest"
proof (cases t)
  case (Task n b)
  then show ?thesis by simp
next
  case (DrawTask f)
  obtain rest where "trace (draw_body ByDraw f (size_of s) (snd (new_promise None (emit (Invoked t) s))))
      = trace (snd (new_promise None (emit (Invoked t) s))) @ rest"
    using draw_body_trace by blast
  then show ?thesis by (simp add: invoke_task_def Let_def split_beta DrawTask)
next
  case (RedrawTask tok)
  show ?thesis
  proof (cases "aborted tok (snd (new_promise None (emit (Invoked t) s)))")
    case True
    then show ?thesis by (simp add: invoke_task_def Let_def split_beta RedrawTask)
  next
    case False
    show ?thesis
    proof (cases "lastFrame s")
      case None
      then show ?thesis using False by (simp add: invoke_task_def Let_def split_beta RedrawTask)
    next
      case (Some lf)
      let ?s3 = "(snd (new_promise None (emit (Invoked t) s)))\<lparr>pendingRedraw := None,
          clones := Suc (clones s)\<rparr>"
      obtain rest where "trace (draw_body (ByRedraw tok) (Clone lf (clones s)) (size_of s) ?s3)
          = trace ?s3 @ rest"
        using draw_body_trace by blast
      then show ?thesis using False Some
        by (simp add: invoke_task_def Let_def split_beta RedrawTask)
    qed
  qed
qed

lemma enqueue_trace: "\<exists>rest. trace (snd (enqueue t b s)) = trace s @ rest"
proof (cases "disposed s \<or> ready s \<noteq> None")
  case True
  then show ?thesis by (auto simp: enqueue_def then_promise_eq split_beta)
next
  case False
  obtain rest where r: "trace (snd (invoke_task t s)) = trace s @ rest"
    using invoke_task_trace by blast
  obtain c s1 where i: "invoke_task t s = (c, s1)" by (cases "invoke_task t s")
  then have "trace s1 = trace s @ rest" using r by simp
  then show ?thesis using False i
    by (auto simp: enqueue_def then_promise_eq split_beta split: completion.splits jsval.splits)
qed

lemma enqueue_fields [simp]:
  "lastFrame (snd (enqueue t b s)) = lastFrame s"
  "disposed (snd (enqueue t b s)) = disposed s"
  "draw_callback (snd (enqueue t b s)) = draw_callback s"
  "abort_controllers (snd (enqueue t b s)) = abort_controllers s"
  "pendingRedraw s = None \<Longrightarrow> pendingRedraw (snd (enqueue t b s)) = None"
proof -
  obtain c s1 where i: "invoke_task t s = (c, s1)" by (cases "invoke_task t s")
  then have f: "lastFrame s1 = lastFrame s" "disposed s1 = disposed s"
    "draw_callback s1 = draw_callback s" "abort_controllers s1 = abort_controllers s"
    "pendingRedraw s = None \<Longrightarrow> pendingRedraw s1 = None"
    using invoke_task_fields[where t=t and s=s] by simp_all
  show "lastFrame (snd (enqueue t b s)) = lastFrame s"
    "disposed (snd (enqueue t b s)) = disposed s"
    "draw_callback (snd (enqueue t b s)) = draw_callback s"
    "abort_controllers (snd (enqueue t b s)) = abort_controllers s"
    "pendingRedraw s = None \<Longrightarrow> pendingRedraw (snd (enqueue t b s)) = None"
    using i f
    by (auto simp: enqueue_def then_promise_eq split_beta split: completion.splits jsval.splits option.splits)
qed

lemma draw_eq: "draw f s = enqueue (DrawTask f) True (before_enqueue f s)"
  by (cases "pendingRedraw s"; cases "lastFrame s")
     (simp_all add: draw_def before_enqueue_def Let_def abort_def close_frame_def emit_def closing_def)

lemma before_enqueue_obs [simp]:
  "size_of (before_enqueue f s) = size_of s"
  "outcome_of p (before_enqueue f s) = outcome_of p s"
  "reactions_of p (before_enqueue f s) = reactions_of p s"
  "microtasks (before_enqueue f s) = microtasks s"
  "ready (before_enqueue f s) = ready s"
  "disposed (before_enqueue f s) = disposed s"
  "draw_callback (before_enqueue f s) = draw_callback s"
  "trace (before_enqueue f s) = trace s @ closing (lastFrame s)"
  "lastFrame (before_enqueue f s) = Some (Clone f (clones s))"
  "pendingRedraw (before_enqueue f s) = None"
  by (simp_all add: before_enqueue_def size_of_def outcome_of_def reactions_of_def)

section \<open>RedrawController: tokens\<close>

lemma token_inv_frame:
  assumes "token_inv s"
    and "length (abort_controllers s) \<le> length (abort_controllers s')"
    and "pendingRedraw s' = pendingRedraw s \<or> pendingRedraw s' = None"
    and "scheduled s' \<subseteq> scheduled s"
    and "\<forall>tok. redraw_calls tok s' = redraw_calls tok s"
  shows "token_inv s'"
  using assms unfolding token_inv_def
  by (smt (verit, best) le_trans less_le_trans option.distinct(1) subsetD)

lemma scheduled_simps [simp]:
  "scheduled (emit ob s) = scheduled s"
  "scheduled (snd (new_promise st s)) = scheduled s"
  "scheduled (s\<lparr>pendingRedraw := pr\<rparr>) = scheduled s"
  "scheduled (s\<lparr>lastFrame := lf\<rparr>) = scheduled s"
  "scheduled (s\<lparr>clones := c\<rparr>) = scheduled s"
  "scheduled (s\<lparr>ready := r\<rparr>) = scheduled s"
  "scheduled (s\<lparr>disposed := b\<rparr>) = scheduled s"
  "scheduled (s\<lparr>abort_controllers := ac\<rparr>) = scheduled s"
  "scheduled (s\<lparr>trace := tr\<rparr>) = scheduled s"
  by (simp_all add: scheduled_def)

lemma scheduled_close [simp]: "scheduled (close_frame f s) = scheduled s"
  by (simp add: close_frame_def)

lemma scheduled_settle: "scheduled (settle p out s) \<subseteq> scheduled s"
  by (fastforce simp: scheduled_def split: if_splits)

lemma scheduled_perform_then:
  "scheduled (perform_then p h d s) \<subseteq> scheduled s \<union> (case h of RunTask t \<Rightarrow> {t} | _ \<Rightarrow> {})"
  by (cases "outcome_of p s") (fastforce simp: scheduled_def split: if_splits handler.splits)+

lemma scheduled_pop: "microtasks s = j # js \<Longrightarrow> scheduled (s\<lparr>microtasks := js\<rparr>) \<subseteq> scheduled s"
  by (auto simp: scheduled_def)

lemma scheduled_push:
  "scheduled (s\<lparr>microtasks := microtasks s @ [j]\<rparr>)
     \<subseteq> scheduled s \<union> (case j of ReactionJob (RunTask t) d out \<Rightarrow> {t} | _ \<Rightarrow> {})"
  by (auto simp: scheduled_def split: job.splits handler.splits)

lemma redraw_calls_simps [simp]:
  "redraw_calls tok (snd (new_promise st s)) = redraw_calls tok s"
  "redraw_calls tok (settle p out s) = redraw_calls tok s"
  "redraw_calls tok (perform_then p h d s) = redraw_calls tok s"
  "redraw_calls tok (close_frame f s) = redraw_calls tok s"
  "redraw_calls tok (emit (Invoked t) s) = redraw_calls tok s"
  "redraw_calls tok (emit (DrawCallback ByDraw f) s) = redraw_calls tok s"
  "redraw_calls tok (s\<lparr>pendingRedraw := pr\<rparr>) = redraw_calls tok s"
  "redraw_calls tok (s\<lparr>lastFrame := lf\<rparr>) = redraw_calls tok s"
  "redraw_calls tok (s\<lparr>clones := c\<rparr>) = redraw_calls tok s"
  "redraw_calls tok (s\<lparr>ready := r\<rparr>) = redraw_calls tok s"
  "redraw_calls tok (s\<lparr>disposed := b\<rparr>) = redraw_calls tok s"
  "redraw_calls tok (s\<lparr>abort_controllers := ac\<rparr>) = redraw_calls tok s"
  "redraw_calls tok (s\<lparr>microtasks := m\<rparr>) = redraw_calls tok s"
  by (simp_all add: redraw_calls_def close_frame_def emit_def)

lemma token_inv_settle: "token_inv s \<Longrightarrow> token_inv (settle p out s)"
  by (erule token_inv_frame) (simp_all add: scheduled_settle)

lemma token_inv_new_promise: "token_inv s \<Longrightarrow> token_inv (snd (new_promise st s))"
  by (erule token_inv_frame) simp_all

lemma token_inv_close: "token_inv s \<Longrightarrow> token_inv (close_frame f s)"
  by (erule token_inv_frame) simp_all

lemma token_inv_pop: "token_inv s \<Longrightarrow> microtasks s = j # js \<Longrightarrow> token_inv (s\<lparr>microtasks := js\<rparr>)"
  by (erule token_inv_frame) (simp_all add: scheduled_pop)

lemma token_inv_grow:
  assumes "token_inv s"
    and "abort_controllers s' = abort_controllers s"
    and "pendingRedraw s' = pendingRedraw s \<or> pendingRedraw s' = None"
    and "scheduled s' \<subseteq> scheduled s \<union> X" and "\<forall>t \<in> X. valid_task t s"
    and "\<forall>tok. redraw_calls tok s' = redraw_calls tok s"
  shows "token_inv s'"
  unfolding token_inv_def
proof (intro conjI allI impI)
  fix tok assume "pendingRedraw s' = Some tok"
  then show "tok < length (abort_controllers s')" using assms(1,2,3) by (auto simp: token_inv_def)
next
  fix tok assume "RedrawTask tok \<in> scheduled s'"
  then have "RedrawTask tok \<in> scheduled s \<or> RedrawTask tok \<in> X" using assms(4) by auto
  then show "tok < length (abort_controllers s')"
    using assms(1,2,5) by (auto simp: token_inv_def valid_task_def)
next
  fix tok assume "pendingRedraw s' = Some tok \<or> length (abort_controllers s') \<le> tok"
  then have "pendingRedraw s = Some tok \<or> length (abort_controllers s) \<le> tok"
    using assms(2,3) by auto
  then show "redraw_calls tok s' = []" using assms(1,6) by (auto simp: token_inv_def)
qed

lemma token_inv_perform_then:
  "token_inv s \<Longrightarrow> valid_handler h s \<Longrightarrow> token_inv (perform_then p h d s)"
  by (erule token_inv_grow[where X="case h of RunTask t \<Rightarrow> {t} | _ \<Rightarrow> {}"])
     (auto simp: scheduled_perform_then valid_handler_def split: handler.splits)

lemma token_inv_push:
  "token_inv s \<Longrightarrow> (\<forall>t d out. j = ReactionJob (RunTask t) d out \<longrightarrow> valid_task t s)
     \<Longrightarrow> token_inv (s\<lparr>microtasks := microtasks s @ [j]\<rparr>)"
  by (erule token_inv_grow[where X="case j of ReactionJob (RunTask t) d out \<Rightarrow> {t} | _ \<Rightarrow> {}"])
     (auto simp: scheduled_push split: job.splits handler.splits)


lemma token_inv_fields:
  "token_inv s \<Longrightarrow> token_inv (s\<lparr>ready := r\<rparr>)"
  "token_inv s \<Longrightarrow> token_inv (s\<lparr>disposed := b\<rparr>)"
  "token_inv s \<Longrightarrow> token_inv (s\<lparr>lastFrame := lf\<rparr>)"
  "token_inv s \<Longrightarrow> token_inv (s\<lparr>clones := c\<rparr>)"
  "token_inv s \<Longrightarrow> token_inv (s\<lparr>pendingRedraw := None\<rparr>)"
  by (erule token_inv_frame; simp)+

lemma valid_task_simps [simp]:
  "valid_task t (emit ob s) = valid_task t s"
  "valid_task t (snd (new_promise st s)) = valid_task t s"
  "valid_task t (settle p out s) = valid_task t s"
  "valid_task t (perform_then p h d s) = valid_task t s"
  "valid_task t (close_frame f s) = valid_task t s"
  "valid_task t (s\<lparr>microtasks := m\<rparr>) = valid_task t s"
  "valid_task t (s\<lparr>ready := r\<rparr>) = valid_task t s"
  "valid_task t (s\<lparr>pendingRedraw := pr\<rparr>) = valid_task t s"
  "valid_task t (s\<lparr>clones := c\<rparr>) = valid_task t s"
  by (simp_all add: valid_task_def split: task.splits)

lemma token_inv_emit:
  assumes "token_inv s"
    and "\<forall>tok g. ob = DrawCallback (ByRedraw tok) g
           \<longrightarrow> tok < length (abort_controllers s) \<and> pendingRedraw s \<noteq> Some tok"
  shows "token_inv (emit ob s)"
  unfolding token_inv_def
proof (intro conjI allI impI)
  fix tok assume "pendingRedraw (emit ob s) = Some tok"
  then show "tok < length (abort_controllers (emit ob s))" using assms(1) by (simp add: token_inv_def)
next
  fix tok assume "RedrawTask tok \<in> scheduled (emit ob s)"
  then show "tok < length (abort_controllers (emit ob s))" using assms(1) by (simp add: token_inv_def)
next
  fix tok assume a: "pendingRedraw (emit ob s) = Some tok \<or> length (abort_controllers (emit ob s)) \<le> tok"
  then have a': "pendingRedraw s = Some tok \<or> length (abort_controllers s) \<le> tok" by simp
  then have "redraw_calls tok s = []" using assms(1) unfolding token_inv_def by blast
  moreover have "\<not> is_redraw_call tok ob" using a' assms(2)
    by (cases "(tok, ob)" rule: is_redraw_call.cases) auto
  ultimately show "redraw_calls tok (emit ob s) = []" by (simp add: redraw_calls_def)
qed

lemma token_inv_draw_body:
  assumes "token_inv s"
    and "\<forall>tok. who = ByRedraw tok \<longrightarrow> tok < length (abort_controllers s) \<and> pendingRedraw s \<noteq> Some tok"
  shows "token_inv (draw_body who f P s)"
proof -
  let ?s1 = "emit (DrawCallback who f) s"
  have e: "token_inv ?s1"
    by (rule token_inv_emit[OF assms(1)]) (use assms(2) in auto)
  show ?thesis
  proof (cases "call (draw_callback s f)")
    case (Threw e')
    have "token_inv (settle P (Rejected e') (close_frame f ?s1))"
      by (intro token_inv_settle token_inv_close e)
    then show ?thesis using Threw by (simp add: draw_body_def Let_def)
  next
    case (Returned v)
    show ?thesis
    proof (cases v)
      case (Plain x)
      have "token_inv (?s1\<lparr>microtasks := microtasks ?s1 @ [ReactionJob (DrawCont f) P (Fulfilled x)]\<rparr>)"
        by (rule token_inv_push[OF e]) simp
      then show ?thesis using Returned Plain by (simp add: draw_body_def Let_def)
    next
      case (Promise q)
      have "token_inv (perform_then q (DrawCont f) P ?s1)"
        by (rule token_inv_perform_then[OF e]) (simp add: valid_handler_def)
      then show ?thesis using Returned Promise by (simp add: draw_body_def Let_def)
    qed
  qed
qed

lemma token_inv_invoke:
  assumes "token_inv s" and "valid_task t s"
  shows "token_inv (snd (invoke_task t s))"
proof -
  have e: "token_inv (emit (Invoked t) s)" by (rule token_inv_emit[OF assms(1)]) simp
  let ?s1 = "snd (new_promise None (emit (Invoked t) s))"
  have n: "token_inv ?s1" by (rule token_inv_new_promise[OF e])
  show ?thesis
  proof (cases t)
    case (Task n b)
    then show ?thesis using e by simp
  next
    case (DrawTask f)
    have "token_inv (draw_body ByDraw f (size_of s) ?s1)"
      by (rule token_inv_draw_body[OF n]) simp
    then show ?thesis by (simp add: invoke_task_def Let_def split_beta DrawTask)
  next
    case (RedrawTask tok)
    have v: "tok < length (abort_controllers s)" using assms(2) RedrawTask by (simp add: valid_task_def)
    let ?s2 = "?s1\<lparr>pendingRedraw := None\<rparr>"
    have s2: "token_inv ?s2" by (rule token_inv_fields(5)[OF n])
    show ?thesis
    proof (cases "aborted tok ?s1")
      case True
      then show ?thesis using n
        by (simp add: invoke_task_def Let_def split_beta RedrawTask token_inv_settle)
    next
      case False
      show ?thesis
      proof (cases "lastFrame s")
        case None
        then show ?thesis using False s2
          by (simp add: invoke_task_def Let_def split_beta RedrawTask token_inv_settle)
      next
        case (Some lf)
        let ?s3 = "?s2\<lparr>clones := Suc (clones s)\<rparr>"
        have s3: "token_inv ?s3" by (rule token_inv_fields(4)[OF s2])
        have "token_inv (draw_body (ByRedraw tok) (Clone lf (clones s)) (size_of s) ?s3)"
          by (rule token_inv_draw_body[OF s3]) (use v in simp)
        then show ?thesis using False Some
          by (simp add: invoke_task_def Let_def split_beta RedrawTask)
      qed
    qed
  qed
qed

lemma token_inv_resolve: "token_inv s \<Longrightarrow> token_inv (resolve d v s)"
  by (cases v) (simp_all add: resolve_def token_inv_settle token_inv_push)

lemma token_inv_run_reaction:
  assumes "token_inv s" and "valid_handler h s"
  shows "token_inv (run_reaction h d out s)"
proof (cases h)
  case (RunTask t)
  then have v: "valid_task t s" using assms(2) by (simp add: valid_handler_def)
  obtain c s1 where i: "invoke_task t s = (c, s1)" by (cases "invoke_task t s")
  have s1: "token_inv s1" using token_inv_invoke[OF assms(1) v] i by simp
  show ?thesis using assms(1) s1 i
    by (cases out; cases c)
       (simp_all add: run_reaction_def RunTask token_inv_settle token_inv_resolve)
qed (use assms(1) in \<open>auto simp: run_reaction_def token_inv_settle token_inv_close
       split: outcome.splits\<close>)

lemma token_inv_run_job:
  assumes "token_inv s" and "microtasks s = j # js"
  shows "token_inv (run_job j (s\<lparr>microtasks := js\<rparr>))"
proof -
  let ?s1 = "s\<lparr>microtasks := js\<rparr>"
  have p: "token_inv ?s1" by (rule token_inv_pop[OF assms])
  show ?thesis
  proof (cases j)
    case (ReactionJob h d out)
    have "valid_handler h ?s1"
    proof (cases h)
      case (RunTask t)
      then have "t \<in> scheduled s" using assms(2) ReactionJob by (auto simp: scheduled_def)
      then show ?thesis using assms(1) RunTask
        by (auto simp: valid_handler_def valid_task_def token_inv_def split: task.splits)
    qed (simp_all add: valid_handler_def)
    then show ?thesis using p ReactionJob by (simp add: run_job_def token_inv_run_reaction)
  next
    case (ResolveThenable d q)
    then show ?thesis using p
      by (simp add: run_job_def token_inv_perform_then valid_handler_def)
  qed
qed

lemma token_inv_drain: "token_inv s \<Longrightarrow> token_inv (drain s)"
proof (induction s rule: drain.induct)
  case (1 s)
  show ?case
  proof (cases "microtasks s")
    case Nil
    then show ?thesis using "1.prems" by (simp add: drain_Nil)
  next
    case (Cons j js)
    from "1.IH"[OF Cons token_inv_run_job[OF "1.prems" Cons]]
    show ?thesis by (simp add: drain_Cons[OF Cons])
  qed
qed

lemma token_inv_then_promise:
  "token_inv s \<Longrightarrow> valid_handler h s \<Longrightarrow> token_inv (snd (then_promise p h s))"
  by (simp add: then_promise_eq token_inv_perform_then token_inv_new_promise valid_handler_def
      split: handler.splits)

lemma valid_handler_simps [simp]:
  "valid_handler h (snd (new_promise st s)) = valid_handler h s"
  "valid_handler h (perform_then p h' d s) = valid_handler h s"
  by (simp_all add: valid_handler_def split: handler.splits)

lemma token_inv_enqueue:
  assumes "token_inv s" and "valid_task t s"
  shows "token_inv (snd (enqueue t b s))"
proof (cases "disposed s")
  case True
  then show ?thesis using assms(1) by (simp add: enqueue_def)
next
  case False
  show ?thesis
  proof (cases "ready s")
    case None
    obtain c s1 where i: "invoke_task t s = (c, s1)" by (cases "invoke_task t s")
    have s1: "token_inv s1" using token_inv_invoke[OF assms] i by simp
    show ?thesis
    proof (cases c)
      case (Returned v)
      show ?thesis
      proof (cases v)
        case (Plain x)
        then show ?thesis using False None i Returned s1 by (simp add: enqueue_def)
      next
        case (Promise q)
        have "token_inv (snd (then_promise q (ReadyFirst b) s1))"
          by (rule token_inv_then_promise[OF s1]) (simp add: valid_handler_def)
        then show ?thesis using False None i Returned Promise
          by (simp add: enqueue_def split_beta token_inv_fields)
      qed
    next
      case (Threw e)
      have "token_inv (snd (then_promise (size_of s1) Suppress (snd (new_promise (Some (Rejected e)) s1))))"
        by (intro token_inv_then_promise token_inv_new_promise s1) (simp add: valid_handler_def)
      then show ?thesis using False None i Threw s1
        by (simp add: enqueue_def split_beta token_inv_fields)
    qed
  next
    case (Some p)
    have a: "token_inv (snd (then_promise p (RunTask t) s))"
      by (rule token_inv_then_promise[OF assms(1)]) (use assms(2) in \<open>simp add: valid_handler_def\<close>)
    have "token_inv (snd (then_promise (fst (then_promise p (RunTask t) s)) (ReadyNext b)
        (snd (then_promise p (RunTask t) s))))"
      by (rule token_inv_then_promise[OF a]) (simp add: valid_handler_def)
    then show ?thesis using False Some by (simp add: enqueue_def split_beta token_inv_fields)
  qed
qed

lemma token_inv_before_enqueue: "token_inv s \<Longrightarrow> token_inv (before_enqueue f s)"
  by (erule token_inv_frame)
     (simp_all add: before_enqueue_def scheduled_def redraw_calls_def closing_def
        reactions_of_def split: option.splits)

lemma token_inv_draw: "token_inv s \<Longrightarrow> token_inv (snd (draw f s))"
  unfolding draw_eq
  by (intro token_inv_enqueue token_inv_before_enqueue) (simp_all add: valid_task_def)

lemma token_inv_new_token:
  assumes "token_inv s" and "pendingRedraw s = None"
  shows "token_inv (s\<lparr>abort_controllers := abort_controllers s @ [False],
                      pendingRedraw := Some (length (abort_controllers s))\<rparr>)"
  using assms unfolding token_inv_def
  by (auto simp: scheduled_def redraw_calls_def reactions_of_def less_Suc_eq)

lemma token_inv_redraw: "token_inv s \<Longrightarrow> token_inv (snd (redraw s))"
proof (cases "lastFrame s = None \<or> pendingRedraw s \<noteq> None")
  case True
  assume "token_inv s"
  then show ?thesis using True by (simp add: redraw_def token_inv_new_promise)
next
  case False
  assume i: "token_inv s"
  from False obtain lf where c: "lastFrame s = Some lf" "pendingRedraw s = None" by auto
  let ?tok = "length (abort_controllers s)"
  let ?s1 = "s\<lparr>abort_controllers := abort_controllers s @ [False], pendingRedraw := Some ?tok\<rparr>"
  have s1: "token_inv ?s1" by (rule token_inv_new_token[OF i]) (use False in simp)
  have "valid_task (RedrawTask ?tok) ?s1" by (simp add: valid_task_def)
  from token_inv_enqueue[OF s1 this, of True]
  have e: "token_inv (snd (enqueue (RedrawTask ?tok) True ?s1))" .
  obtain c s2 where q: "enqueue (RedrawTask ?tok) True ?s1 = (c, s2)"
    by (cases "enqueue (RedrawTask ?tok) True ?s1")
  then have s2: "token_inv s2" using e by simp
  have n: "token_inv (snd (new_promise None s2))" by (rule token_inv_new_promise[OF s2])
  show ?thesis
  proof (cases c)
    case (Returned v)
    show ?thesis
    proof (cases v)
      case (Plain x)
      have "token_inv ((snd (new_promise None s2))\<lparr>microtasks :=
          microtasks (snd (new_promise None s2)) @ [ReactionJob AwaitReturn (size_of s2) (Fulfilled x)]\<rparr>)"
        by (rule token_inv_push[OF n]) simp
      then show ?thesis using q Returned Plain
        by (simp add: redraw_def Let_def split_beta c)
    next
      case (Promise r)
      have "token_inv (perform_then r AwaitReturn (size_of s2) (snd (new_promise None s2)))"
        by (rule token_inv_perform_then[OF n]) (simp add: valid_handler_def)
      then show ?thesis using q Returned Promise
        by (simp add: redraw_def Let_def split_beta c)
    qed
  next
    case (Threw e')
    then show ?thesis using q s2
      by (simp add: redraw_def Let_def split_beta token_inv_new_promise c)
  qed
qed

lemma token_inv_controller_dispose: "token_inv s \<Longrightarrow> token_inv (controller_dispose s)"
  by (erule token_inv_frame)
     (simp_all add: controller_dispose_def Let_def dispose_def abort_def close_frame_def emit_def
        scheduled_def redraw_calls_def reactions_of_def split: option.splits)

lemma token_inv_init: "token_inv (init cb)"
  by (simp add: token_inv_def init_def scheduled_def redraw_calls_def reactions_of_def)

lemma token_inv_exec:
  assumes "token_inv s" and "controller_event ev"
  shows "token_inv (exec ev s)"
  using assms
  by (cases ev)
     (simp_all add: token_inv_draw token_inv_redraw token_inv_controller_dispose
        token_inv_new_promise token_inv_settle token_inv_drain dispose_def token_inv_fields)

lemma token_inv_run:
  "token_inv s \<Longrightarrow> \<forall>ev \<in> set evs. controller_event ev \<Longrightarrow> token_inv (run evs s)"
proof (induction evs arbitrary: s)
  case Nil
  then show ?case by (simp add: run_def)
next
  case (Cons ev evs)
  have "token_inv (exec ev s)" using Cons.prems by (simp add: token_inv_exec)
  from Cons.IH[OF this] Cons.prems(2) show ?case by (simp add: run_def)
qed

lemma nth_update_True: "i < length xs \<Longrightarrow> xs ! i \<Longrightarrow> (xs[j := True]) ! i"
  by (cases "i = j") simp_all

lemma cancelled_frame:
  assumes "cancelled tok c s" and "abort_controllers s' = abort_controllers s"
    and "redraw_calls tok s' = redraw_calls tok s"
  shows "cancelled tok c s'"
  using assms by (simp add: cancelled_def aborted_def)

lemma redraw_calls_draw_body:
  "who \<noteq> ByRedraw tok \<Longrightarrow> redraw_calls tok (draw_body who f P s) = redraw_calls tok s"
  by (cases who)
     (auto simp: draw_body_def Let_def redraw_calls_def emit_def close_frame_def
        split: completion.splits jsval.splits)

lemma cancelled_invoke:
  assumes "cancelled tok c s"
  shows "cancelled tok c (snd (invoke_task t s))"
proof (rule cancelled_frame[OF assms])
  show "abort_controllers (snd (invoke_task t s)) = abort_controllers s" by simp
  show "redraw_calls tok (snd (invoke_task t s)) = redraw_calls tok s"
  proof (cases t)
    case (Task n b)
    then show ?thesis by simp
  next
    case (DrawTask f)
    then show ?thesis by (simp add: invoke_task_def Let_def split_beta redraw_calls_draw_body)
  next
    case (RedrawTask tok')
    show ?thesis
    proof (cases "tok' = tok")
      case True
      then show ?thesis using assms RedrawTask
        by (simp add: invoke_task_def Let_def split_beta cancelled_def aborted_def)
    next
      case False
      then show ?thesis using RedrawTask
        by (simp add: invoke_task_def Let_def split_beta redraw_calls_draw_body split: option.splits)
    qed
  qed
qed

lemma cancelled_run_reaction:
  assumes "cancelled tok c s"
  shows "cancelled tok c (run_reaction h d out s)"
proof (rule cancelled_frame[OF assms])
  show "abort_controllers (run_reaction h d out s) = abort_controllers s" by simp
  show "redraw_calls tok (run_reaction h d out s) = redraw_calls tok s"
  proof (cases h)
    case (RunTask t)
    obtain r s1 where i: "invoke_task t s = (r, s1)" by (cases "invoke_task t s")
    have "redraw_calls tok s1 = redraw_calls tok s"
      using cancelled_invoke[OF assms, of t] assms i by (simp add: cancelled_def)
    then show ?thesis using i
      by (cases out; cases r) (simp_all add: run_reaction_def RunTask resolve_def split: jsval.splits)
  qed (simp_all add: run_reaction_def split: outcome.splits)
qed

lemma cancelled_run_job: "cancelled tok c s \<Longrightarrow> cancelled tok c (run_job j s)"
  by (cases j) (simp_all add: run_job_def cancelled_run_reaction cancelled_frame)

lemma cancelled_drain: "cancelled tok c s \<Longrightarrow> cancelled tok c (drain s)"
proof (induction s rule: drain.induct)
  case (1 s)
  show ?case
  proof (cases "microtasks s")
    case Nil
    then show ?thesis using "1.prems" by (simp add: drain_Nil)
  next
    case (Cons j js)
    have "cancelled tok c (s\<lparr>microtasks := js\<rparr>)"
      by (rule cancelled_frame[OF "1.prems"]) simp_all
    from "1.IH"[OF Cons cancelled_run_job[OF this]]
    show ?thesis by (simp add: drain_Cons[OF Cons])
  qed
qed

lemma redraw_calls_enqueue:
  assumes "cancelled tok c s"
  shows "redraw_calls tok (snd (enqueue t b s)) = redraw_calls tok s"
proof -
  obtain r s1 where i: "invoke_task t s = (r, s1)" by (cases "invoke_task t s")
  have "redraw_calls tok s1 = redraw_calls tok s"
    using cancelled_invoke[OF assms, of t] assms i by (simp add: cancelled_def)
  then show ?thesis using i
    by (auto simp: enqueue_def then_promise_eq split_beta
        split: completion.splits jsval.splits option.splits)
qed

lemma cancelled_enqueue: "cancelled tok c s \<Longrightarrow> cancelled tok c (snd (enqueue t b s))"
  by (rule cancelled_frame) (simp_all add: redraw_calls_enqueue)

lemma cancelled_before_enqueue: "cancelled tok c s \<Longrightarrow> cancelled tok c (before_enqueue f s)"
  by (auto simp: cancelled_def aborted_def before_enqueue_def redraw_calls_def closing_def
      nth_update_True split: option.splits)

lemma cancelled_draw: "cancelled tok c s \<Longrightarrow> cancelled tok c (snd (draw f s))"
  unfolding draw_eq by (intro cancelled_enqueue cancelled_before_enqueue)

lemma cancelled_redraw: "cancelled tok c s \<Longrightarrow> cancelled tok c (snd (redraw s))"
proof (cases "lastFrame s = None \<or> pendingRedraw s \<noteq> None")
  case True
  assume "cancelled tok c s"
  then show ?thesis using True by (simp add: redraw_def cancelled_frame)
next
  case False
  assume a: "cancelled tok c s"
  from False obtain lf where c: "lastFrame s = Some lf" "pendingRedraw s = None" by auto
  let ?t = "length (abort_controllers s)"
  let ?s1 = "s\<lparr>abort_controllers := abort_controllers s @ [False], pendingRedraw := Some ?t\<rparr>"
  have s1: "cancelled tok c ?s1"
    using a by (simp add: cancelled_def aborted_def nth_append)
  obtain r s2 where q: "enqueue (RedrawTask ?t) True ?s1 = (r, s2)"
    by (cases "enqueue (RedrawTask ?t) True ?s1")
  have s2: "cancelled tok c s2" using cancelled_enqueue[OF s1, of "RedrawTask ?t" True] q by simp
  show ?thesis using q c s2
    by (cases r)
       (auto simp: redraw_def Let_def split_beta intro: cancelled_frame split: jsval.splits)
qed

lemma cancelled_controller_dispose:
  "cancelled tok c s \<Longrightarrow> cancelled tok c (controller_dispose s)"
  by (auto simp: cancelled_def aborted_def controller_dispose_def Let_def dispose_def abort_def
      close_frame_def emit_def redraw_calls_def nth_update_True split: option.splits)

lemma cancelled_exec: "cancelled tok c s \<Longrightarrow> cancelled tok c (exec ev s)"
  by (cases ev)
     (simp_all add: cancelled_enqueue cancelled_draw cancelled_redraw cancelled_controller_dispose
        cancelled_drain cancelled_frame dispose_def)

lemma cancelled_run: "cancelled tok c s \<Longrightarrow> cancelled tok c (run evs s)"
proof (induction evs arbitrary: s)
  case Nil
  then show ?case by (simp add: run_def)
next
  case (Cons ev evs)
  from Cons.IH[OF cancelled_exec[OF Cons.prems, of ev]] show ?case by (simp add: run_def)
qed

section \<open>RedrawController: the frame handed to draw\<close>

text \<open>
  Claim C2, evaluated where it fails. The draw callback throws on frame 1; the first
  \<open>draw\<close> closes frame 1 in its \<open>finally\<close> and leaves the queue carrying the
  failure. The second \<open>draw\<close> hands over frame 2: its task is never called, its
  result fails with the first failure, no job is left, and frame 2 has not been closed
  (the last close in the trace is that of the replaced \<open>lastFrame\<close>).
\<close>

theorem draw_on_poisoned_queue_leaks_frame:
  "trace (run [Draw (Frame 1), Tick, Draw (Frame 2), Tick] (init throws_on_first))
     = [Invoked (DrawTask (Frame 1)), DrawCallback ByDraw (Frame 1), Closed (Frame 1),
        Closed (Clone (Frame 1) 0)]
   \<and> fst (draw (Frame 2) (run [Draw (Frame 1), Tick] (init throws_on_first)))
     = Returned (Promise 2)
   \<and> outcome_of 2 (run [Draw (Frame 1), Tick, Draw (Frame 2), Tick] (init throws_on_first))
     = Some (Rejected (Failure 7))
   \<and> microtasks (run [Draw (Frame 1), Tick, Draw (Frame 2), Tick] (init throws_on_first)) = []"
  by code_simp

section \<open>RedrawController: lastFrame\<close>

text \<open>
  Claim C10, as the code has it. \<open>draw\<close> closes the previous \<open>lastFrame\<close> first and
  sets \<open>lastFrame\<close> to a new clone of the incoming frame, in every state and whatever
  the task does later. When the queue is disposed \<open>draw\<close> throws and has changed
  exactly what \<open>before_enqueue\<close> changes: besides \<open>lastFrame\<close> (and the counter of
  clones and the trace), the pending redraw, which it aborts and clears. When the queue
  carries a failure the task is skipped: the result fails with that failure, nothing is
  added to the trace but the close of the previous \<open>lastFrame\<close>, the queue still
  carries the failure, and again the pending redraw is aborted and cleared.
\<close>

theorem draw_replaces_lastFrame:
  "lastFrame (snd (draw f s)) = Some (Clone f (clones s))
   \<and> lastFrame (drain (snd (draw f s))) = Some (Clone f (clones s))
   \<and> take (length (trace s @ closing (lastFrame s))) (trace (snd (draw f s)))
       = trace s @ closing (lastFrame s)
   \<and> (disposed s \<longrightarrow> draw f s = (Threw QueueDisposed, before_enqueue f s))
   \<and> (\<not> disposed s \<and> microtasks s = [] \<and> poisoned e s \<longrightarrow>
         delivered (fst (draw f s)) (drain (snd (draw f s))) = Some (Rejected e)
       \<and> trace (drain (snd (draw f s))) = trace s @ closing (lastFrame s)
       \<and> poisoned e (drain (snd (draw f s)))
       \<and> \<not> disposed (drain (snd (draw f s)))
       \<and> draw_callback (drain (snd (draw f s))) = draw_callback s
       \<and> abort_controllers (drain (snd (draw f s))) = abort_controllers (before_enqueue f s)
       \<and> pendingRedraw (drain (snd (draw f s))) = None)"
proof -
  let ?b = "before_enqueue f s"
  have l1: "lastFrame (snd (draw f s)) = Some (Clone f (clones s))"
    by (simp add: draw_eq)
  have l2: "lastFrame (drain (snd (draw f s))) = Some (Clone f (clones s))"
    using drain_fields[of "snd (draw f s)"] l1 by simp
  obtain rest where "trace (snd (draw f s)) = (trace s @ closing (lastFrame s)) @ rest"
    using enqueue_trace[of "DrawTask f" True ?b] by (auto simp: draw_eq)
  then have tk: "take (length (trace s @ closing (lastFrame s))) (trace (snd (draw f s)))
       = trace s @ closing (lastFrame s)"
    by (metis append_eq_conv_conj)
  have dis: "disposed s \<longrightarrow> draw f s = (Threw QueueDisposed, ?b)"
    by (simp add: draw_eq enqueue_disposed)
  have poi: "\<not> disposed s \<and> microtasks s = [] \<and> poisoned e s \<longrightarrow>
         delivered (fst (draw f s)) (drain (snd (draw f s))) = Some (Rejected e)
       \<and> trace (drain (snd (draw f s))) = trace s @ closing (lastFrame s)
       \<and> poisoned e (drain (snd (draw f s)))
       \<and> \<not> disposed (drain (snd (draw f s)))
       \<and> draw_callback (drain (snd (draw f s))) = draw_callback s
       \<and> abort_controllers (drain (snd (draw f s))) = abort_controllers (before_enqueue f s)
       \<and> pendingRedraw (drain (snd (draw f s))) = None"
  proof
    assume a: "\<not> disposed s \<and> microtasks s = [] \<and> poisoned e s"
    then have nd: "\<not> disposed ?b" and mq: "microtasks ?b = []" and po: "poisoned e ?b"
      by (simp_all add: poisoned_def split: option.splits)
    have bl: "\<forall>tb \<in> set (butlast [(DrawTask f, True)]). snd tb" by simp
    note P = poisoned_batch[OF nd mq po bl, simplified]
    have e1: "snd (enqueue_all [(DrawTask f, True)] ?b) = snd (draw f s)"
      and e2: "fst (enqueue_all [(DrawTask f, True)] ?b) = [fst (draw f s)]"
      by (simp_all add: draw_eq split_beta)
    have r: "fst (draw f s) = Returned (Promise (size_of s))"
      using P e2 by (simp add: split_beta)
    have "outcome_of (size_of s) (drain (snd (draw f s))) = Some (Rejected e)"
      using P e1 by (simp add: split_beta)
    then have dl: "delivered (fst (draw f s)) (drain (snd (draw f s))) = Some (Rejected e)"
      unfolding r by (simp add: delivered_def)
    have pr: "pendingRedraw (drain (snd (draw f s))) = None"
      using drain_fields[of "snd (draw f s)"] by (simp add: draw_eq)
    show "delivered (fst (draw f s)) (drain (snd (draw f s))) = Some (Rejected e)
       \<and> trace (drain (snd (draw f s))) = trace s @ closing (lastFrame s)
       \<and> poisoned e (drain (snd (draw f s)))
       \<and> \<not> disposed (drain (snd (draw f s)))
       \<and> draw_callback (drain (snd (draw f s))) = draw_callback s
       \<and> abort_controllers (drain (snd (draw f s))) = abort_controllers (before_enqueue f s)
       \<and> pendingRedraw (drain (snd (draw f s))) = None"
      using P dl pr drain_fields[of "snd (draw f s)"] unfolding e1[symmetric]
      by (simp add: split_beta)
  qed
  show ?thesis using l1 l2 tk dis poi by blast
qed

theorem draw_replaces_lastFrame_witness:
  "lastFrame (drain (snd (draw (Frame 2)
       (run [Draw (Frame 1), Tick, Redraw, Tick] (init throws_on_first)))))
     = Some (Clone (Frame 2) (clones (run [Draw (Frame 1), Tick, Redraw, Tick] (init throws_on_first))))
   \<and> delivered (fst (draw (Frame 2) (run [Draw (Frame 1), Tick, Redraw, Tick] (init throws_on_first))))
       (drain (snd (draw (Frame 2) (run [Draw (Frame 1), Tick, Redraw, Tick] (init throws_on_first)))))
     = Some (Rejected (Failure 7))
   \<and> trace (drain (snd (draw (Frame 2)
       (run [Draw (Frame 1), Tick, Redraw, Tick] (init throws_on_first)))))
     = trace (run [Draw (Frame 1), Tick, Redraw, Tick] (init throws_on_first))
       @ closing (lastFrame (run [Draw (Frame 1), Tick, Redraw, Tick] (init throws_on_first)))
   \<and> poisoned (Failure 7) (drain (snd (draw (Frame 2)
       (run [Draw (Frame 1), Tick, Redraw, Tick] (init throws_on_first)))))
   \<and> pendingRedraw (drain (snd (draw (Frame 2)
       (run [Draw (Frame 1), Tick, Redraw, Tick] (init throws_on_first))))) = None"
proof -
  let ?s0 = "run [Draw (Frame 1), Tick, Redraw, Tick] (init throws_on_first)"
  have h: "\<not> disposed ?s0 \<and> microtasks ?s0 = [] \<and> poisoned (Failure 7) ?s0"
    by code_simp
  from draw_replaces_lastFrame[of "Frame 2" ?s0 "Failure 7"] h show ?thesis by blast
qed

text \<open>
  The claim as stated fails in its last part. A redraw is pending on a queue that
  carries a failure; the task of the next \<open>draw\<close> is skipped (nothing is called), and
  yet \<open>draw\<close> has changed a field other than \<open>lastFrame\<close>: the pending redraw is
  cleared and its token aborted.
\<close>

theorem draw_changes_pending_redraw_counterexample:
  "pendingRedraw (run [Draw (Frame 1), Tick, Redraw, Tick] (init throws_on_first)) = Some 0
   \<and> abort_controllers (run [Draw (Frame 1), Tick, Redraw, Tick] (init throws_on_first)) = [False]
   \<and> pendingRedraw (snd (draw (Frame 2)
        (run [Draw (Frame 1), Tick, Redraw, Tick] (init throws_on_first)))) = None
   \<and> abort_controllers (snd (draw (Frame 2)
        (run [Draw (Frame 1), Tick, Redraw, Tick] (init throws_on_first)))) = [True]
   \<and> trace (run [Draw (Frame 1), Tick, Redraw, Tick] (init throws_on_first))
     = [Invoked (DrawTask (Frame 1)), DrawCallback ByDraw (Frame 1), Closed (Frame 1)]
   \<and> trace (drain (snd (draw (Frame 2)
        (run [Draw (Frame 1), Tick, Redraw, Tick] (init throws_on_first)))))
     = [Invoked (DrawTask (Frame 1)), DrawCallback ByDraw (Frame 1), Closed (Frame 1),
        Closed (Clone (Frame 1) 0)]"
  by code_simp

section \<open>RedrawController: a pending redraw\<close>

text \<open>
  Claim C6. In a state a controller has reached with a redraw pending (token
  \<open>tok\<close>), \<open>redraw\<close> does nothing but return a promise already fulfilled with
  \<open>undefined\<close>: no token is created and nothing is enqueued. \<open>draw\<close> aborts the
  token and clears the pending redraw, and whatever happens afterwards the draw callback
  is never called for that token; it had not been called before either.
\<close>

theorem pending_redraw_is_coalesced:
  assumes "\<forall>ev \<in> set evs0. controller_event ev"
    and "pendingRedraw (run evs0 (init cb)) = Some tok"
  shows "redraw (run evs0 (init cb))
           = new_promise (Some (Fulfilled Undefined)) (run evs0 (init cb))
       \<and> pendingRedraw (snd (draw f (run evs0 (init cb)))) = None
       \<and> aborted tok (snd (draw f (run evs0 (init cb))))
       \<and> (\<forall>evs. redraw_calls tok (run evs (snd (draw f (run evs0 (init cb))))) = [])"
proof -
  let ?s = "run evs0 (init cb)"
  have inv: "token_inv ?s" by (rule token_inv_run[OF token_inv_init assms(1)])
  then have v: "tok < length (abort_controllers ?s)" and w: "redraw_calls tok ?s = []"
    using assms(2) by (auto simp: token_inv_def)
  have r: "redraw ?s = new_promise (Some (Fulfilled Undefined)) ?s"
    using assms(2) by (simp add: redraw_def)
  have b: "cancelled tok [] (before_enqueue f ?s)"
    using assms(2) v w
    by (simp add: cancelled_def aborted_def before_enqueue_def redraw_calls_def closing_def
        split: option.splits)
  have d: "cancelled tok [] (snd (draw f ?s))"
    unfolding draw_eq by (rule cancelled_enqueue[OF b])
  have p: "pendingRedraw (snd (draw f ?s)) = None" by (simp add: draw_eq)
  have "\<forall>evs. redraw_calls tok (run evs (snd (draw f ?s))) = []"
    using cancelled_run[OF d] by (simp add: cancelled_def)
  then show ?thesis using r p d by (simp add: cancelled_def)
qed

theorem pending_redraw_is_coalesced_witness:
  "redraw (run [Draw (Frame 1), Redraw] (init returns_at_once))
     = new_promise (Some (Fulfilled Undefined)) (run [Draw (Frame 1), Redraw] (init returns_at_once))
   \<and> pendingRedraw (snd (draw (Frame 2) (run [Draw (Frame 1), Redraw] (init returns_at_once)))) = None
   \<and> aborted 0 (snd (draw (Frame 2) (run [Draw (Frame 1), Redraw] (init returns_at_once))))
   \<and> (\<forall>evs. redraw_calls 0
          (run evs (snd (draw (Frame 2) (run [Draw (Frame 1), Redraw] (init returns_at_once))))) = [])"
proof (rule pending_redraw_is_coalesced)
  show "\<forall>ev \<in> set [Draw (Frame 1), Redraw]. controller_event ev" by simp
  show "pendingRedraw (run [Draw (Frame 1), Redraw] (init returns_at_once)) = Some 0"
    by code_simp
qed

section \<open>RendererController: the invariant of an open transform\<close>

lemma open_inv_init: "open_inv renderer_init"
  by (simp add: open_inv_def renderer_init_def)

lemma open_inv_write: "open_inv r \<Longrightarrow> open_inv (sink_write f r)"
  by (auto simp: open_inv_def sink_write_def Let_def tryStartDrawing_def draw_loop_def put_def
      split: option.splits)

lemma open_inv_settled: "open_inv r \<Longrightarrow> open_inv (enqueue_settled b r)"
  by (auto simp: open_inv_def enqueue_settled_def Let_def draw_loop_def put_def
      split: option.splits)

lemma open_inv_run:
  "open_inv r \<Longrightarrow> \<forall>ev \<in> set evs. open_event ev \<Longrightarrow> open_inv (renderer_run evs r)"
proof (induction evs arbitrary: r)
  case Nil
  then show ?case by (simp add: renderer_run_def)
next
  case (Cons ev evs)
  have "open_inv (renderer_exec ev r)" using Cons.prems
    by (cases ev) (simp_all add: open_inv_write open_inv_settled)
  from Cons.IH[OF this] Cons.prems(2) show ?case by (simp add: renderer_run_def)
qed

lemma settled_when_idle: "awaiting r = None \<Longrightarrow> enqueue_settled b r = r"
  by (simp add: enqueue_settled_def)

lemma settle_all_idle: "awaiting r = None \<Longrightarrow> settle_all bs r = r"
  by (induction bs) (simp_all add: settle_all_def settled_when_idle)

lemma settle_all_Cons: "settle_all (b # bs) r = settle_all bs (enqueue_settled b r)"
  by (simp add: settle_all_def)

lemma write_starts_loop:
  "\<not> drawTask r \<Longrightarrow> \<exists>xs. outlog (sink_write f r) = outlog r @ xs @ [Enqueued f]"
  by (auto simp: sink_write_def Let_def tryStartDrawing_def draw_loop_def put_def
      split: option.splits)

lemma write_outlog_grows: "\<exists>xs. outlog (sink_write f r) = outlog r @ xs"
  by (auto simp: sink_write_def Let_def tryStartDrawing_def draw_loop_def put_def finish_sink_def
      split: option.splits sink_wait.splits)

lemma forwarded_since_append:
  "outlog r' = outlog r @ xs
   \<Longrightarrow> forwarded_since r r' = concat (map (\<lambda>ev. case ev of Enqueued f \<Rightarrow> [f] | _ \<Rightarrow> []) xs)"
  by (simp add: forwarded_since_def)

lemma write_while_drawing:
  assumes "drawTask r"
  shows "sink_write f r =
     r\<lparr>captureFrame := Some (Clone f (cloned r)), cloned := Suc (cloned r),
       nextFrame := Some f,
       framesSkippedRendering :=
         (if nextFrame r = None then framesSkippedRendering r else Suc (framesSkippedRendering r)),
       outlog := outlog r
         @ (case captureFrame r of None \<Rightarrow> [] | Some c \<Rightarrow> [FrameClosed c])
         @ (case nextFrame r of None \<Rightarrow> [] | Some n \<Rightarrow> [FrameClosed n])\<rparr>"
  using assms
  by (cases "captureFrame r"; cases "nextFrame r")
     (simp_all add: sink_write_def Let_def tryStartDrawing_def put_def)

section \<open>RendererController: frames written while the draw loop is busy\<close>

text \<open>
  Claim C3. Frames \<open>f1\<close>, \<open>f2\<close>, \<open>f3\<close> are written to a transform that has been
  open so far, and the draw loop takes no frame while they are written. Then what leaves
  the transform during the three writes is: the close of the previous capture frame and
  of a frame still in the slot, if any, and then the closes of the clone of \<open>f1\<close>, of
  \<open>f1\<close>, of the clone of \<open>f2\<close> and of \<open>f2\<close>; the skip counter has gone up by one
  for \<open>f1\<close> and by one for \<open>f2\<close>; \<open>f3\<close> is in the slot; and once the output side
  answers, however often, \<open>f3\<close> is the only frame forwarded since the writes began.
\<close>

theorem burst_keeps_latest_frame:
  assumes "\<forall>ev \<in> set evs. open_event ev"
    and "forwarded_since (renderer_run evs renderer_init)
           (sink_write f3 (sink_write f2 (sink_write f1 (renderer_run evs renderer_init)))) = []"
  shows "outlog (sink_write f3 (sink_write f2 (sink_write f1 (renderer_run evs renderer_init))))
           = outlog (renderer_run evs renderer_init)
             @ (case captureFrame (renderer_run evs renderer_init) of
                  None \<Rightarrow> [] | Some c \<Rightarrow> [FrameClosed c])
             @ (case nextFrame (renderer_run evs renderer_init) of
                  None \<Rightarrow> [] | Some n \<Rightarrow> [FrameClosed n])
             @ [FrameClosed (Clone f1 (cloned (renderer_run evs renderer_init))), FrameClosed f1,
                FrameClosed (Clone f2 (Suc (cloned (renderer_run evs renderer_init)))), FrameClosed f2]
       \<and> framesSkippedRendering
            (sink_write f3 (sink_write f2 (sink_write f1 (renderer_run evs renderer_init))))
           = framesSkippedRendering (sink_write f1 (renderer_run evs renderer_init)) + 2
       \<and> nextFrame (sink_write f3 (sink_write f2 (sink_write f1 (renderer_run evs renderer_init))))
           = Some f3
       \<and> forwarded_since (renderer_run evs renderer_init)
            (settle_all (b # bs)
               (sink_write f3 (sink_write f2 (sink_write f1 (renderer_run evs renderer_init)))))
           = [f3]"
proof -
  let ?r = "renderer_run evs renderer_init"
  let ?r1 = "sink_write f1 ?r"
  let ?r3 = "sink_write f3 (sink_write f2 ?r1)"
  have inv: "open_inv ?r" by (rule open_inv_run[OF open_inv_init assms(1)])
  have d: "drawTask ?r"
  proof (rule ccontr)
    assume n: "\<not> drawTask ?r"
    from write_starts_loop[OF n, of f1] obtain xs where
      x1: "outlog ?r1 = outlog ?r @ xs @ [Enqueued f1]" by blast
    from write_outlog_grows[of f2 ?r1] obtain ys where
      x2: "outlog (sink_write f2 ?r1) = outlog ?r1 @ ys" by blast
    from write_outlog_grows[of f3 "sink_write f2 ?r1"] obtain zs where
      x3: "outlog ?r3 = outlog (sink_write f2 ?r1) @ zs" by blast
    have "outlog ?r3 = outlog ?r @ (xs @ [Enqueued f1] @ ys @ zs)" using x1 x2 x3 by simp
    from forwarded_since_append[OF this] have "f1 \<in> set (forwarded_since ?r ?r3)" by simp
    then show False using assms(2) by simp
  qed
  then obtain g where g: "awaiting ?r = Some g" using inv by (auto simp: open_inv_def)
  have w: "waiting ?r = None" using inv by (simp add: open_inv_def)
  have r1: "drawTask ?r1" using d by (simp add: write_while_drawing)
  have r2: "drawTask (sink_write f2 ?r1)" using r1 by (simp add: write_while_drawing)
  note e1 = write_while_drawing[OF d, of f1]
  have e2: "sink_write f2 ?r1 = ?r\<lparr>captureFrame := Some (Clone f2 (Suc (cloned ?r))),
       cloned := Suc (Suc (cloned ?r)),
       nextFrame := Some f2,
       framesSkippedRendering :=
         Suc (if nextFrame ?r = None then framesSkippedRendering ?r
              else Suc (framesSkippedRendering ?r)),
       outlog := outlog ?r
         @ (case captureFrame ?r of None \<Rightarrow> [] | Some c \<Rightarrow> [FrameClosed c])
         @ (case nextFrame ?r of None \<Rightarrow> [] | Some n \<Rightarrow> [FrameClosed n])
         @ [FrameClosed (Clone f1 (cloned ?r)), FrameClosed f1]\<rparr>"
    by (subst write_while_drawing[OF r1]) (simp add: e1)
  have e3: "?r3 = ?r\<lparr>captureFrame := Some (Clone f3 (Suc (Suc (cloned ?r)))),
       cloned := Suc (Suc (Suc (cloned ?r))),
       nextFrame := Some f3,
       framesSkippedRendering :=
         Suc (Suc (if nextFrame ?r = None then framesSkippedRendering ?r
                   else Suc (framesSkippedRendering ?r))),
       outlog := outlog ?r
         @ (case captureFrame ?r of None \<Rightarrow> [] | Some c \<Rightarrow> [FrameClosed c])
         @ (case nextFrame ?r of None \<Rightarrow> [] | Some n \<Rightarrow> [FrameClosed n])
         @ [FrameClosed (Clone f1 (cloned ?r)), FrameClosed f1,
            FrameClosed (Clone f2 (Suc (cloned ?r))), FrameClosed f2]\<rparr>"
    by (subst write_while_drawing[OF r2]) (simp add: e2)
  have sk: "framesSkippedRendering ?r1
      = (if nextFrame ?r = None then framesSkippedRendering ?r else Suc (framesSkippedRendering ?r))"
    by (simp add: write_while_drawing[OF d])
  let ?a = "enqueue_settled b ?r3"
  have a: "outlog ?a = outlog ?r3 @ (if b then [] else [FrameClosed g]) @ [Enqueued f3]"
    "awaiting ?a = Some f3" "nextFrame ?a = None" "waiting ?a = None"
    unfolding e3 using g w by (simp_all add: enqueue_settled_def Let_def draw_loop_def put_def)
  have fin: "\<exists>xs. outlog (settle_all bs ?a) = outlog ?a @ xs \<and> (\<forall>f. Enqueued f \<notin> set xs)"
  proof (cases bs)
    case Nil
    then show ?thesis by (simp add: settle_all_def)
  next
    case (Cons b' bs')
    let ?c = "enqueue_settled b' ?a"
    have c: "outlog ?c = outlog ?a @ (if b' then [] else [FrameClosed f3])" "awaiting ?c = None"
      using a by (simp_all add: enqueue_settled_def Let_def draw_loop_def put_def)
    have "settle_all bs ?a = ?c" using Cons settle_all_idle[OF c(2)] by (simp add: settle_all_Cons)
    then show ?thesis using c(1) by auto
  qed
  then obtain xs where xs: "outlog (settle_all bs ?a) = outlog ?a @ xs" "\<forall>f. Enqueued f \<notin> set xs"
    by blast
  have nf: "concat (map (\<lambda>ev. case ev of Enqueued f \<Rightarrow> [f] | _ \<Rightarrow> []) xs) = []"
    using xs(2) by (induction xs) (auto split: out_event.splits)
  have "outlog (settle_all (b # bs) ?r3) = outlog ?r
         @ ((case captureFrame ?r of None \<Rightarrow> [] | Some c \<Rightarrow> [FrameClosed c])
         @ (case nextFrame ?r of None \<Rightarrow> [] | Some n \<Rightarrow> [FrameClosed n])
         @ [FrameClosed (Clone f1 (cloned ?r)), FrameClosed f1,
            FrameClosed (Clone f2 (Suc (cloned ?r))), FrameClosed f2]
         @ (if b then [] else [FrameClosed g]) @ [Enqueued f3] @ xs)"
    using xs(1) a(1) by (simp add: settle_all_Cons e3)
  from forwarded_since_append[OF this]
  have fw: "forwarded_since ?r (settle_all (b # bs) ?r3) = [f3]"
    using nf by (simp split: option.splits)
  show ?thesis using fw sk by (simp add: e3)
qed

theorem burst_keeps_latest_frame_witness:
  "outlog (sink_write (Frame 3) (sink_write (Frame 2) (sink_write (Frame 1)
       (renderer_run [Write (Frame 0)] renderer_init))))
     = outlog (renderer_run [Write (Frame 0)] renderer_init)
       @ (case captureFrame (renderer_run [Write (Frame 0)] renderer_init) of
            None \<Rightarrow> [] | Some c \<Rightarrow> [FrameClosed c])
       @ (case nextFrame (renderer_run [Write (Frame 0)] renderer_init) of
            None \<Rightarrow> [] | Some n \<Rightarrow> [FrameClosed n])
       @ [FrameClosed (Clone (Frame 1) (cloned (renderer_run [Write (Frame 0)] renderer_init))),
          FrameClosed (Frame 1),
          FrameClosed (Clone (Frame 2) (Suc (cloned (renderer_run [Write (Frame 0)] renderer_init)))),
          FrameClosed (Frame 2)]
   \<and> framesSkippedRendering (sink_write (Frame 3) (sink_write (Frame 2) (sink_write (Frame 1)
       (renderer_run [Write (Frame 0)] renderer_init))))
     = framesSkippedRendering (sink_write (Frame 1) (renderer_run [Write (Frame 0)] renderer_init)) + 2
   \<and> nextFrame (sink_write (Frame 3) (sink_write (Frame 2) (sink_write (Frame 1)
       (renderer_run [Write (Frame 0)] renderer_init)))) = Some (Frame 3)
   \<and> forwarded_since (renderer_run [Write (Frame 0)] renderer_init)
       (settle_all (True # [True])
          (sink_write (Frame 3) (sink_write (Frame 2) (sink_write (Frame 1)
             (renderer_run [Write (Frame 0)] renderer_init)))))
     = [Frame 3]"
proof (rule burst_keeps_latest_frame)
  show "\<forall>ev \<in> set [Write (Frame 0)]. open_event ev" by simp
  show "forwarded_since (renderer_run [Write (Frame 0)] renderer_init)
      (sink_write (Frame 3) (sink_write (Frame 2) (sink_write (Frame 1)
         (renderer_run [Write (Frame 0)] renderer_init)))) = []"
    by code_simp
qed

text \<open>
  On a transform whose draw loop is not running the condition of the claim cannot be
  met: the first write starts the loop, which takes \<open>f1\<close> from the slot and hands it
  to the output side before \<open>write\<close> returns. Of three frames written to a new
  transform the first is forwarded, the second skipped, the third left in the slot.
\<close>

lemma burst_on_new_transform:
  "outlog (renderer_run [Write (Frame 1), Write (Frame 2), Write (Frame 3)] renderer_init)
     = [Enqueued (Frame 1), FrameClosed (Clone (Frame 1) 0), FrameClosed (Clone (Frame 2) 1),
        FrameClosed (Frame 2)]
   \<and> framesSkippedRendering
        (renderer_run [Write (Frame 1), Write (Frame 2), Write (Frame 3)] renderer_init) = 1
   \<and> nextFrame (renderer_run [Write (Frame 1), Write (Frame 2), Write (Frame 3)] renderer_init)
     = Some (Frame 3)"
  by code_simp

section \<open>RendererController: closing the input side\<close>



end
